theory Spec2Isabelle
  imports Main "HOL-Library.Char_ord" "HOL-Library.List_Lexorder" "HOL-Library.Multiset"
begin

section \<open>The schema model of swift/codegen/lib/schema/schema.py\<close>

text \<open>
  Python strings are modelled as \<open>string\<close>, a character being a Unicode code point below
  256 (\<open>of_char\<close> gives the code point). Python compares strings lexicographically by code
  point, which is the order of \<open>HOL-Library.List_Lexorder\<close> over \<open>HOL-Library.Char_ord\<close>.
  A Python \<open>dict\<close> is an association list in insertion order with distinct keys.
\<close>

subsection \<open>Errors\<close>

text \<open>
  \<open>Error\<close> is the module's own exception class and carries its message. The other
  constructors are the exceptions of Python and of the \<open>toposort\<close> package that the
  functions below can raise.
\<close>

datatype error =
    Error string
  | KeyError string
  | IndexError
  | TypeError
  | NotImplementedError
  | CircularDependencyError

subsection \<open>Characters and string methods of Python\<close>

definition isspace :: "char \<Rightarrow> bool" where
  "isspace c = (let n = (of_char c :: nat) in
     (9 \<le> n \<and> n \<le> 13) \<or> (28 \<le> n \<and> n \<le> 32) \<or> n = 133 \<or> n = 160)"

definition linebreak :: "char \<Rightarrow> bool" where
  "linebreak c = (let n = (of_char c :: nat) in
     (10 \<le> n \<and> n \<le> 13) \<or> (28 \<le> n \<and> n \<le> 30) \<or> n = 133)"

definition islower :: "char \<Rightarrow> bool" where
  "islower c = (let n = (of_char c :: nat) in
     (97 \<le> n \<and> n \<le> 122) \<or> n = 170 \<or> n = 181 \<or> n = 186 \<or>
     (223 \<le> n \<and> n \<le> 246) \<or> (248 \<le> n \<and> n \<le> 255))"

definition isupper :: "char \<Rightarrow> bool" where
  "isupper c = (let n = (of_char c :: nat) in
     (65 \<le> n \<and> n \<le> 90) \<or> (192 \<le> n \<and> n \<le> 214) \<or> (216 \<le> n \<and> n \<le> 222))"

definition lstrip :: "string \<Rightarrow> string" where
  "lstrip s = dropWhile isspace s"

definition rstrip :: "string \<Rightarrow> string" where
  "rstrip s = rev (dropWhile isspace (rev s))"

definition strip :: "string \<Rightarrow> string" where
  "strip s = rstrip (lstrip s)"

text \<open>\<open>s.rstrip(chars)\<close>: the trailing characters that occur in \<open>chars\<close> are removed.\<close>

definition rstrip_chars :: "string \<Rightarrow> string \<Rightarrow> string" where
  "rstrip_chars chars s = rev (dropWhile (\<lambda>c. c \<in> set chars) (rev s))"

definition startswith :: "string \<Rightarrow> string \<Rightarrow> bool" where
  "startswith s pre = (take (length pre) s = pre)"

text \<open>
  \<open>str.splitlines\<close>: a line ends at a line boundary, carriage return followed by line
  feed counting as one boundary; a boundary at the very end opens no further line.
\<close>

fun skip_linebreak :: "string \<Rightarrow> string" where
  "skip_linebreak [] = []"
| "skip_linebreak [c] = []"
| "skip_linebreak (c # d # cs) =
     (if c = CHR 0x0D \<and> d = CHR 0x0A then cs else d # cs)"

lemma length_skip_linebreak: "length (skip_linebreak s) \<le> length s - 1"
  by (induction s rule: skip_linebreak.induct) auto

function splitlines :: "string \<Rightarrow> string list" where
  "splitlines [] = []"
| "splitlines (c # cs) =
     takeWhile (\<lambda>x. \<not> linebreak x) (c # cs)
       # splitlines (skip_linebreak (dropWhile (\<lambda>x. \<not> linebreak x) (c # cs)))"
  by pat_completeness auto
termination
proof (relation "measure length")
  fix c :: char and cs :: string
  let ?r = "dropWhile (\<lambda>x. \<not> linebreak x) (c # cs)"
  have "length (skip_linebreak ?r) \<le> length ?r - 1"
    by (rule length_skip_linebreak)
  moreover have "length ?r \<le> length (c # cs)"
    by (rule length_dropWhile_le)
  ultimately have "length (skip_linebreak ?r) < length (c # cs)"
    by simp
  then show "(skip_linebreak ?r, c # cs) \<in> measure length"
    by simp
qed simp

subsection \<open>Doc normalizer\<close>

text \<open>The two \<open>while\<close> statements that close \<open>split_doc\<close>: blank lines are popped at the end, then at the
  front.\<close>

function pop_trailing :: "string list \<Rightarrow> string list" where
  "pop_trailing trimmed =
     (if trimmed \<noteq> [] \<and> last trimmed = [] then pop_trailing (butlast trimmed) else trimmed)"
  by pat_completeness auto
termination
  by (relation "measure length") auto

declare pop_trailing.simps [simp del]

fun pop_leading :: "string list \<Rightarrow> string list" where
  "pop_leading [] = []"
| "pop_leading (l # ls) = (if l = [] then pop_leading ls else l # ls)"

definition indents_of :: "string list \<Rightarrow> nat list" where
  "indents_of later =
     map (\<lambda>line. length line - length (lstrip line)) (filter (\<lambda>line. lstrip line \<noteq> []) later)"

definition trimmed_of :: "string list \<Rightarrow> string list" where
  "trimmed_of lines =
     (case lines of
        [] \<Rightarrow> []
      | first # later \<Rightarrow>
          strip first #
            (if indents_of later \<noteq> []
             then map (\<lambda>line. rstrip (drop (min_list (indents_of later)) line)) later
             else []))"

text \<open>
  \<open>doc\<close> is \<open>cls.__doc__\<close>: \<open>None\<close> or a string. A string that is not empty has a first
  line (lemma \<open>splitlines_nonempty\<close>), so \<open>lines[0]\<close> never fails.
\<close>

definition split_doc :: "string option \<Rightarrow> string list" where
  "split_doc doc =
     (case doc of
        None \<Rightarrow> []
      | Some d \<Rightarrow>
          if d = [] then []
          else pop_leading (pop_trailing (trimmed_of (splitlines d))))"

lemma splitlines_nonempty: "d \<noteq> [] \<Longrightarrow> splitlines d \<noteq> []"
  by (cases d) simp_all

subsection \<open>Property model\<close>

datatype Kind = SINGLE | REPEATED | OPTIONAL | REPEATED_OPTIONAL | PREDICATE

record Property =
  kind :: Kind
  name :: "string option"
  type :: "string option"
  is_child :: bool
  pragmas :: "string list"
  doc :: "string option"
  description :: "string list"

definition is_single :: "Property \<Rightarrow> bool" where
  "is_single p = (kind p = SINGLE)"

definition is_optional :: "Property \<Rightarrow> bool" where
  "is_optional p = (kind p = OPTIONAL \<or> kind p = REPEATED_OPTIONAL)"

definition is_repeated :: "Property \<Rightarrow> bool" where
  "is_repeated p = (kind p = REPEATED \<or> kind p = REPEATED_OPTIONAL)"

definition is_predicate :: "Property \<Rightarrow> bool" where
  "is_predicate p = (kind p = PREDICATE)"

text \<open>The dataclass constructor with the defaults of every field but \<open>kind\<close>.\<close>

definition Property_of :: "Kind \<Rightarrow> Property" where
  "Property_of k =
     \<lparr>kind = k, name = None, type = None, is_child = False, pragmas = [], doc = None,
      description = []\<rparr>"

text \<open>\<open>SingleProperty(type=t)\<close> and \<open>PredicateProperty()\<close>, the two partial applications used here.\<close>

definition SingleProperty :: "string \<Rightarrow> Property" where
  "SingleProperty t = (Property_of SINGLE)\<lparr>type := Some t\<rparr>"

definition PredicateProperty :: Property where
  "PredicateProperty = Property_of PREDICATE"

text \<open>
  A type reference is a Python class, of which only \<open>__name__\<close> is read, or a string.
  A property specifier is a type reference, the object \<open>predicate_marker\<close>, a \<open>Property\<close>,
  or any other object, kept as the text that \<open>str\<close> gives for it.
\<close>

datatype TypeRef = TypeObj string | TypeStr string

fun get_type_name :: "TypeRef \<Rightarrow> string" where
  "get_type_name (TypeObj n) = n"
| "get_type_name (TypeStr s) = s"

datatype specifier =
    Ref TypeRef
  | PredicateMarker
  | Prop Property
  | OtherObject string

fun make_property :: "specifier \<Rightarrow> error + Property" where
  "make_property PredicateMarker = Inr PredicateProperty"
| "make_property (OtherObject s) = Inl (Error (''Illegal property specifier '' @ s))"
| "make_property (Ref r) = Inr (SingleProperty (get_type_name r))"
| "make_property (Prop p) = Inr p"

text \<open>
  A modifier is an instance of \<open>PropertyModifier\<close> or of a subclass of it. This module
  defines the base class, whose \<open>modify\<close> is not implemented, and \<open>_PropertyNamer\<close>; every
  other subclass is defined elsewhere (the modifiers of kind, ownership and pragmas are
  in the module \<open>defs\<close>, which is not in this file) and is kept as what its \<open>modify\<close>
  does: the function from the property to the property as mutated, or to the exception
  raised. \<open>ror m other\<close> is \<open>other | m\<close>, for an \<open>other\<close> that has no \<open>__or__\<close> of its own that
  answers first. Properties are values here: a \<open>Property\<close> object shared by two
  specifiers, which a modifier would change for both, is not modelled.
\<close>

datatype modifier =
    PropertyModifier
  | PropertyNamer string
  | OtherModifier "Property \<Rightarrow> error + Property"

fun modify :: "modifier \<Rightarrow> Property \<Rightarrow> error + Property" where
  "modify PropertyModifier prop = Inl NotImplementedError"
| "modify (PropertyNamer n) prop = Inr (prop\<lparr>name := Some (rstrip_chars ''_'' n)\<rparr>)"
| "modify (OtherModifier f) prop = f prop"

definition ror :: "modifier \<Rightarrow> specifier \<Rightarrow> error + Property" where
  "ror m other = (case make_property other of Inl e \<Rightarrow> Inl e | Inr ret \<Rightarrow> modify m ret)"

text \<open>\<open>other | m1 | ... | mk\<close>, evaluated from the left, for at least one modifier.\<close>

fun pipeline :: "specifier \<Rightarrow> modifier \<Rightarrow> modifier list \<Rightarrow> error + Property" where
  "pipeline other m [] = ror m other"
| "pipeline other m (m' # ms) =
     (case ror m other of Inl e \<Rightarrow> Inl e | Inr p \<Rightarrow> pipeline (Prop p) m' ms)"

subsection \<open>Class model\<close>

text \<open>
  \<open>derived\<close> is a Python set: the list holds its elements, distinct, in the order in which
  the set is iterated. \<open>on_arguments\<close> is a dict.
\<close>

record IpaInfo =
  from_class :: "string option"
  on_arguments :: "(string \<times> string) list option"

record Class =
  class_name :: string
  bases :: "string list"
  derived :: "string list"
  properties :: "Property list"
  group :: string
  class_pragmas :: "string list"
  ipa :: "IpaInfo option"
  class_doc :: "string list"
  default_doc_name :: "string option"

definition final :: "Class \<Rightarrow> bool" where
  "final c = (derived c = [])"

definition check_type :: "string option \<Rightarrow> string set \<Rightarrow> error + unit" where
  "check_type t known =
     (case t of
        None \<Rightarrow> Inr ()
      | Some n \<Rightarrow> if n \<in> known then Inr () else Inl (Error (''Unknown type '' @ n)))"

text \<open>Statements in sequence, and a \<open>for\<close> loop whose body may raise.\<close>

definition and_then :: "error + unit \<Rightarrow> error + unit \<Rightarrow> error + unit" where
  "and_then r s = (case r of Inl e \<Rightarrow> Inl e | Inr _ \<Rightarrow> s)"

fun for_each :: "('a \<Rightarrow> error + unit) \<Rightarrow> 'a list \<Rightarrow> error + unit" where
  "for_each body [] = Inr ()"
| "for_each body (x # xs) = and_then (body x) (for_each body xs)"

definition check_types :: "Class \<Rightarrow> string set \<Rightarrow> error + unit" where
  "check_types c known =
     and_then (for_each (\<lambda>b. check_type (Some b) known) (bases c))
    (and_then (for_each (\<lambda>d. check_type (Some d) known) (derived c))
    (and_then (for_each (\<lambda>p. check_type (type p) known) (properties c))
       (case ipa c of
          None \<Rightarrow> Inr ()
        | Some i \<Rightarrow>
            and_then (check_type (from_class i) known)
              (case on_arguments i of
                 None \<Rightarrow> Inr ()
               | Some args \<Rightarrow> for_each (\<lambda>t. check_type (Some t) known) (map snd args)))))"

subsection \<open>Dicts in insertion order\<close>

text \<open>\<open>d[k]\<close>, which raises \<open>KeyError\<close> for a missing key, and \<open>d[k] = v\<close>, which keeps the
  place of a key that is already there and appends a new one.\<close>

definition getitem :: "(string \<times> 'v) list \<Rightarrow> string \<Rightarrow> error + 'v" where
  "getitem d k = (case map_of d k of None \<Rightarrow> Inl (KeyError k) | Some v \<Rightarrow> Inr v)"

fun setitem :: "'k \<Rightarrow> 'v \<Rightarrow> ('k \<times> 'v) list \<Rightarrow> ('k \<times> 'v) list" where
  "setitem k v [] = [(k, v)]"
| "setitem k v ((k', v') # d) = (if k' = k then (k, v) # d else (k', v') # setitem k v d)"

text \<open>\<open>d.setdefault(k, []).append(x)\<close>\<close>

fun setdefault_append :: "'k \<Rightarrow> 'v \<Rightarrow> ('k \<times> 'v list) list \<Rightarrow> ('k \<times> 'v list) list" where
  "setdefault_append k x [] = [(k, [x])]"
| "setdefault_append k x ((k', xs) # d) =
     (if k' = k then (k', xs @ [x]) # d else (k', xs) # setdefault_append k x d)"

subsection \<open>Class builder\<close>

text \<open>
  What \<open>_get_class\<close> reads of a Python class: \<open>__name__\<close>; \<open>__bases__\<close>, each base being
  \<open>object\<close> or a class with its name and, when \<open>hasattr(b, "_group")\<close>, the value of
  \<open>b._group\<close>; the names of \<open>__subclasses__()\<close>; the class's own \<open>_group\<close> attribute as
  \<open>getattr\<close> finds it (its own or an inherited one); and the entries \<open>_pragmas\<close>, \<open>_ipa\<close>,
  \<open>__annotations__\<close> and \<open>_doc_name\<close> of its own \<open>__dict__\<close>, with \<open>__doc__\<close>.
  A value of the module that is not a class is kept as its \<open>str\<close> text and, when it can be
  iterated, its elements.
\<close>

datatype pybase = PyObject | PyBase string "string option"

record pyclass =
  py_name :: string
  py_bases :: "pybase list"
  py_subclasses :: "string list"
  py_group :: "string option"
  py_pragmas :: "string list option"
  py_ipa :: "IpaInfo option"
  py_annotations :: "(string \<times> specifier) list option"
  py_doc :: "string option"
  py_doc_name :: "string option"

datatype pyvalue = PyType pyclass | PyOther string "string list option"

fun base_groups :: "pybase list \<Rightarrow> string list" where
  "base_groups [] = []"
| "base_groups (PyObject # bs) = base_groups bs"
| "base_groups (PyBase n None # bs) = base_groups bs"
| "base_groups (PyBase n (Some g) # bs) = g # base_groups bs"

fun base_names :: "pybase list \<Rightarrow> string list" where
  "base_names [] = []"
| "base_names (PyObject # bs) = base_names bs"
| "base_names (PyBase n g # bs) = n # base_names bs"

text \<open>\<open>[a | _PropertyNamer(n) for n, a in annotations.items()]\<close>, for annotations each of
  which is an object of its own and leaves \<open>|\<close> to the namer: one \<open>Property\<close> object under
  two names, which the namer would name twice, and an annotation whose own \<open>__or__\<close>
  answers are not modelled.\<close>

fun name_properties :: "(string \<times> specifier) list \<Rightarrow> error + Property list" where
  "name_properties [] = Inr []"
| "name_properties ((n, a) # rest) =
     (case ror (PropertyNamer n) a of
        Inl e \<Rightarrow> Inl e
      | Inr p \<Rightarrow> (case name_properties rest of Inl e \<Rightarrow> Inl e | Inr ps \<Rightarrow> Inr (p # ps)))"

definition get_class :: "pyvalue \<Rightarrow> error + Class" where
  "get_class v =
     (case v of
        PyOther s _ \<Rightarrow> Inl (Error (''Only class definitions allowed in schema, found '' @ s))
      | PyType cls \<Rightarrow>
         (case py_name cls of
            [] \<Rightarrow> Inl IndexError
          | c # _ \<Rightarrow>
              if islower c
              then Inl (Error (''Class name must be capitalized, found '' @ py_name cls))
              else if length (remdups (base_groups (py_bases cls))) > 1
              then Inl (Error (''Bases with mixed groups for '' @ py_name cls))
              else (case name_properties (case py_annotations cls of None \<Rightarrow> [] | Some a \<Rightarrow> a) of
                      Inl e \<Rightarrow> Inl e
                    | Inr props \<Rightarrow>
                        Inr \<lparr>class_name = py_name cls,
                             bases = base_names (py_bases cls),
                             derived = remdups (py_subclasses cls),
                             properties = props,
                             group = (case py_group cls of None \<Rightarrow> [] | Some g \<Rightarrow> g),
                             class_pragmas = (case py_pragmas cls of None \<Rightarrow> [] | Some ps \<Rightarrow> ps),
                             ipa = py_ipa cls,
                             class_doc = split_doc (py_doc cls),
                             default_doc_name = py_doc_name cls\<rparr>)))"

subsection \<open>The \<open>toposort\<close> package\<close>

text \<open>
  \<open>toposort_flatten\<close> is imported from the package \<open>toposort\<close>, which is not part of this
  repository; it is modelled after the package's source, in the form that copies the
  values of the dict into sets and so takes the lists of bases as they are.
  \<open>toposort(data)\<close> yields nothing for an empty dict. Otherwise it turns every value into a set without the key itself,
  gives every item that occurs in a value but is no key an empty set of its own, and then
  repeats: the items whose set is empty form the next yielded set; they are removed from
  the dict and from every remaining set. When no item has an empty set the loop ends, and
  a dict that still has items raises \<open>CircularDependencyError\<close>. \<open>toposort_flatten\<close> appends
  each yielded set in sorted order. Sets are lists without duplicates.
\<close>

definition toposort_prepare :: "(string \<times> string list) list \<Rightarrow> (string \<times> string list) list" where
  "toposort_prepare data =
     (let d = map (\<lambda>(item, dep). (item, remdups (filter (\<lambda>e. e \<noteq> item) dep))) data;
          extra_items_in_deps =
            filter (\<lambda>e. e \<notin> set (map fst d)) (remdups (concat (map snd d)))
      in d @ map (\<lambda>item. (item, [])) extra_items_in_deps)"

definition toposort_ready :: "(string \<times> string list) list \<Rightarrow> string list" where
  "toposort_ready data = map fst (filter (\<lambda>(item, dep). dep = []) data)"

definition toposort_remove :: "string list \<Rightarrow> (string \<times> string list) list \<Rightarrow> (string \<times> string list) list" where
  "toposort_remove ordered data =
     map (\<lambda>(item, dep). (item, filter (\<lambda>e. e \<notin> set ordered) dep))
       (filter (\<lambda>(item, dep). item \<notin> set ordered) data)"

lemma toposort_remove_shorter:
  "toposort_ready data \<noteq> [] \<Longrightarrow> length (toposort_remove (toposort_ready data) data) < length data"
proof -
  assume "toposort_ready data \<noteq> []"
  then obtain item where r: "item \<in> set (toposort_ready data)"
    by (cases "toposort_ready data") auto
  then obtain dep where m: "(item, dep) \<in> set data"
    by (auto simp: toposort_ready_def)
  have "length (filter (\<lambda>(i, d). i \<notin> set (toposort_ready data)) data) < length data"
    using m r by (intro length_filter_less[of "(item, dep)"]) auto
  then show ?thesis
    by (simp add: toposort_remove_def)
qed

function toposort_loop :: "(string \<times> string list) list \<Rightarrow> error + string list list" where
  "toposort_loop data =
     (if toposort_ready data = []
      then (if data = [] then Inr [] else Inl CircularDependencyError)
      else (case toposort_loop (toposort_remove (toposort_ready data) data) of
              Inl e \<Rightarrow> Inl e
            | Inr rest \<Rightarrow> Inr (toposort_ready data # rest)))"
  by pat_completeness auto
termination
  by (relation "measure length") (auto intro: toposort_remove_shorter)

declare toposort_loop.simps [simp del]

definition toposort :: "(string \<times> string list) list \<Rightarrow> error + string list list" where
  "toposort data = (if data = [] then Inr [] else toposort_loop (toposort_prepare data))"

definition toposort_flatten :: "(string \<times> string list) list \<Rightarrow> error + string list" where
  "toposort_flatten data =
     (case toposort data of Inl e \<Rightarrow> Inl e | Inr sets \<Rightarrow> Inr (concat (map sort sets)))"

subsection \<open>Grouped topological sorter\<close>

fun group_names :: "(string \<times> Class) list \<Rightarrow> (string \<times> string list) list \<Rightarrow> (string \<times> string list) list" where
  "group_names [] groups = groups"
| "group_names ((n, cls) # rest) groups = group_names rest (setdefault_append (group cls) n groups)"

text \<open>\<open>{name: classes[name].bases for name in grouped}\<close>\<close>

fun inheritance_of :: "(string \<times> Class) list \<Rightarrow> string list \<Rightarrow> (string \<times> string list) list \<Rightarrow>
    error + (string \<times> string list) list" where
  "inheritance_of cs [] inh = Inr inh"
| "inheritance_of cs (n # grouped) inh =
     (case getitem cs n of
        Inl e \<Rightarrow> Inl e
      | Inr cls \<Rightarrow> inheritance_of cs grouped (setitem n (bases cls) inh))"

text \<open>\<open>for name in order: ret[name] = classes[name]\<close>\<close>

fun copy_classes :: "(string \<times> Class) list \<Rightarrow> string list \<Rightarrow> (string \<times> Class) list \<Rightarrow> error + (string \<times> Class) list" where
  "copy_classes cs [] ret = Inr ret"
| "copy_classes cs (n # order) ret =
     (case getitem cs n of
        Inl e \<Rightarrow> Inl e
      | Inr cls \<Rightarrow> copy_classes cs order (setitem n cls ret))"

fun sort_groups :: "(string \<times> Class) list \<Rightarrow> (string \<times> string list) list \<Rightarrow> (string \<times> Class) list \<Rightarrow> error + (string \<times> Class) list" where
  "sort_groups cs [] ret = Inr ret"
| "sort_groups cs ((g, grouped) # rest) ret =
     (case inheritance_of cs grouped [] of
        Inl e \<Rightarrow> Inl e
      | Inr inheritance \<Rightarrow>
          (case toposort_flatten inheritance of
             Inl e \<Rightarrow> Inl e
           | Inr order \<Rightarrow>
               (case copy_classes cs order ret of
                  Inl e \<Rightarrow> Inl e
                | Inr ret' \<Rightarrow> sort_groups cs rest ret')))"

definition toposort_classes_by_group :: "(string \<times> Class) list \<Rightarrow> error + (string \<times> Class) list" where
  "toposort_classes_by_group cs = sort_groups cs (sort_key fst (group_names cs [])) []"

subsection \<open>Schema loader\<close>

record Schema =
  classes :: "(string \<times> Class) list"
  schema_includes :: "string set"

text \<open>
  The module is its \<open>__dict__\<close>, in insertion order. \<open>hasattr_defs\<close> stands for
  \<open>hasattr(defs, name)\<close>, the module \<open>defs\<close> being outside this file. The loop keeps
  \<open>includes\<close> and the dict of classes built so far. The field \<open>includes\<close> of \<open>Schema\<close> is
  \<open>schema_includes\<close>.
\<close>

fun load_loop :: "(string \<Rightarrow> bool) \<Rightarrow> string set \<Rightarrow> (string \<times> pyvalue) list \<Rightarrow>
    string set \<times> (string \<times> Class) list \<Rightarrow> error + string set \<times> (string \<times> Class) list" where
  "load_loop hasattr_defs known [] st = Inr st"
| "load_loop hasattr_defs known ((n, data) # rest) (incl, cs) =
     (if hasattr_defs n then load_loop hasattr_defs known rest (incl, cs)
      else if n = ''__includes''
      then (case data of
              PyOther _ (Some xs) \<Rightarrow> load_loop hasattr_defs known rest (set xs, cs)
            | _ \<Rightarrow> Inl TypeError)
      else if startswith n ''__'' then load_loop hasattr_defs known rest (incl, cs)
      else (case get_class data of
              Inl e \<Rightarrow> Inl e
            | Inr cls \<Rightarrow>
                if cs \<noteq> [] \<and> bases cls = []
                then Inl (Error (''Only one root class allowed, found second root '' @ n))
                else (case check_types cls known of
                        Inl e \<Rightarrow> Inl e
                      | Inr _ \<Rightarrow> load_loop hasattr_defs known rest (incl, setitem n cls cs))))"

definition known_of :: "(string \<times> pyvalue) list \<Rightarrow> string set" where
  "known_of m =
     set ([''int'', ''string'', ''boolean''] @ filter (\<lambda>n. \<not> startswith n ''__'') (map fst m))"

definition load :: "(string \<Rightarrow> bool) \<Rightarrow> (string \<times> pyvalue) list \<Rightarrow> error + Schema" where
  "load hasattr_defs m =
     (case load_loop hasattr_defs (known_of m) m ({}, []) of
        Inl e \<Rightarrow> Inl e
      | Inr (incl, cs) \<Rightarrow>
          (case toposort_classes_by_group cs of
             Inl e \<Rightarrow> Inl e
           | Inr ret \<Rightarrow> Inr \<lparr>classes = ret, schema_includes = incl\<rparr>))"

subsection \<open>The claims' notions\<close>

text \<open>The type names that \<open>check_types\<close> looks at: bases, derived, the types of the
  properties that have one, and the IPA references that are present.\<close>

definition type_refs :: "Class \<Rightarrow> string set" where
  "type_refs c =
     set (bases c) \<union> set (derived c) \<union> {t. \<exists>p \<in> set (properties c). type p = Some t} \<union>
     (case ipa c of
        None \<Rightarrow> {}
      | Some i \<Rightarrow>
          {t. from_class i = Some t} \<union>
          (case on_arguments i of None \<Rightarrow> {} | Some args \<Rightarrow> snd ` set args))"

text \<open>The group of a base as \<open>getattr(b, "_group", "")\<close> gives it, the way \<open>_get_class\<close>
  computes the group of a class.\<close>

fun effective_group :: "pybase \<Rightarrow> string" where
  "effective_group PyObject = []"
| "effective_group (PyBase n None) = []"
| "effective_group (PyBase n (Some g)) = g"

text \<open>No class has a base, among the classes of the mapping, whose group is greater
  than its own.\<close>

definition bases_below :: "(string \<times> Class) list \<Rightarrow> bool" where
  "bases_below cs \<longleftrightarrow>
     (\<forall>(k, c) \<in> set cs. \<forall>b \<in> set (bases c). \<forall>c'. (b, c') \<in> set cs \<longrightarrow> group c' \<le> group c)"

text \<open>The pairs of a base and a class that has it, both of them classes of the mapping
  and of one group, a class that is its own base left out: the inheritance within the
  groups.\<close>

definition same_group_bases :: "(string \<times> Class) list \<Rightarrow> (string \<times> string) set" where
  "same_group_bases cs =
     {(b, n). \<exists>c c'. (n, c) \<in> set cs \<and> (b, c') \<in> set cs \<and> b \<in> set (bases c) \<and> b \<noteq> n \<and>
        group c' = group c}"

subsection \<open>Example inputs\<close>

text \<open>
  Two modifiers of the kind, as subclasses of \<open>PropertyModifier\<close> can be written: one
  sets the kind to a given value whatever the property; the other makes a single
  property optional and raises \<open>Error\<close> for a property of any other kind.
\<close>

definition kind_setter :: "Kind \<Rightarrow> modifier" where
  "kind_setter k = OtherModifier (\<lambda>prop. Inr (prop\<lparr>kind := k\<rparr>))"

definition optionalizer :: modifier where
  "optionalizer =
     OtherModifier (\<lambda>prop.
       if kind prop = SINGLE then Inr (prop\<lparr>kind := OPTIONAL\<rparr>)
       else Inl (Error ''Optional should only be applied to simple property types''))"

text \<open>A Python class with the given name, bases, subclasses and group attribute, and
  nothing else of its own.\<close>

definition plain_class :: "string \<Rightarrow> pybase list \<Rightarrow> string list \<Rightarrow> string option \<Rightarrow> pyclass" where
  "plain_class n bs subs g =
     \<lparr>py_name = n, py_bases = bs, py_subclasses = subs, py_group = g, py_pragmas = None,
      py_ipa = None, py_annotations = None, py_doc = None, py_doc_name = None\<rparr>"

text \<open>A \<open>Class\<close> with the given name, bases and group, every other field at its default.\<close>

definition Class_of :: "string \<Rightarrow> string list \<Rightarrow> string \<Rightarrow> Class" where
  "Class_of n bs g =
     \<lparr>class_name = n, bases = bs, derived = [], properties = [], group = g, class_pragmas = [],
      ipa = None, class_doc = [], default_doc_name = None\<rparr>"

text \<open>
  The module of \<^verbatim>\<open>class A(int): pass\<close> followed by \<^verbatim>\<open>class Root: pass\<close>. The base of \<open>A\<close> is
  the Python class \<open>int\<close>, whose name is one of the three primitive names.
\<close>

definition derived_first_module :: "(string \<times> pyvalue) list" where
  "derived_first_module =
     [(''A'', PyType (plain_class ''A'' [PyBase ''int'' None] [] None)),
      (''Root'', PyType (plain_class ''Root'' [PyObject] [] None))]"

text \<open>Two classes of one group, each the base of the other.\<close>

definition cyclic_classes :: "(string \<times> Class) list" where
  "cyclic_classes = [(''A'', Class_of ''A'' [''B''] []), (''B'', Class_of ''B'' [''A''] [])]"

text \<open>A root and two classes derived from it, \<open>B\<close> declared before \<open>A\<close>, and what the
  sorter makes of them.\<close>

definition sibling_classes :: "(string \<times> Class) list" where
  "sibling_classes =
     [(''Root'', Class_of ''Root'' [] []), (''B'', Class_of ''B'' [''Root''] []),
      (''A'', Class_of ''A'' [''Root''] [])]"

definition sibling_sorted :: "(string \<times> Class) list" where
  "sibling_sorted =
     [(''Root'', Class_of ''Root'' [] []), (''A'', Class_of ''A'' [''Root''] []),
      (''B'', Class_of ''B'' [''Root''] [])]"

text \<open>
  The module of \<^verbatim>\<open>class Root: pass\<close>, \<^verbatim>\<open>@group("b") class A(Root): pass\<close> and
  \<^verbatim>\<open>@group("a") class B(A): pass\<close>, the decorator setting \<open>_group\<close>, and the schema that
  \<open>load\<close> returns for it.
\<close>

definition cross_group_module :: "(string \<times> pyvalue) list" where
  "cross_group_module =
     [(''Root'', PyType (plain_class ''Root'' [PyObject] [''A''] None)),
      (''A'', PyType (plain_class ''A'' [PyBase ''Root'' None] [''B''] (Some ''b''))),
      (''B'', PyType (plain_class ''B'' [PyBase ''A'' (Some ''b'')] [] (Some ''a'')))]"

definition cross_group_schema :: Schema where
  "cross_group_schema =
     \<lparr>classes = [(''Root'', (Class_of ''Root'' [] [])\<lparr>derived := [''A'']\<rparr>),
                 (''A'', (Class_of ''A'' [''Root''] ''b'')\<lparr>derived := [''B'']\<rparr>),
                 (''B'', Class_of ''B'' [''A''] ''a'')],
      schema_includes = {}\<rparr>"

text \<open>
  The module of \<^verbatim>\<open>class Root: pass\<close> and \<^verbatim>\<open>@group("g") class Child(Root): pass\<close>, and
  the schema that \<open>load\<close> returns for it.
\<close>

definition root_child_module :: "(string \<times> pyvalue) list" where
  "root_child_module =
     [(''Root'', PyType (plain_class ''Root'' [PyObject] [''Child''] None)),
      (''Child'', PyType (plain_class ''Child'' [PyBase ''Root'' None] [] (Some ''g'')))]"

definition root_child_schema :: Schema where
  "root_child_schema =
     \<lparr>classes = [(''Root'', (Class_of ''Root'' [] [])\<lparr>derived := [''Child'']\<rparr>),
                 (''Child'', Class_of ''Child'' [''Root''] ''g'')],
      schema_includes = {}\<rparr>"

subsection \<open>Notions of the proofs\<close>

text \<open>The two steps of \<open>toposort_prepare\<close>: the set of an item without the item, and the
  items that occur in a set but are no key.\<close>

definition prepared_deps :: "string \<Rightarrow> string list \<Rightarrow> string list" where
  "prepared_deps item dep = remdups (filter (\<lambda>e. e \<noteq> item) dep)"

definition extra_items :: "(string \<times> string list) list \<Rightarrow> string list" where
  "extra_items data =
     filter (\<lambda>e. e \<notin> set (map fst data))
       (remdups (concat (map (\<lambda>(item, dep). prepared_deps item dep) data)))"

text \<open>The dependencies of a dict of the \<open>toposort\<close> package as a relation, and a dict
  each of whose dependencies is a key.\<close>

definition dep_edges :: "(string \<times> string list) list \<Rightarrow> (string \<times> string) set" where
  "dep_edges data = {(d, n). \<exists>deps. (n, deps) \<in> set data \<and> d \<in> set deps}"

definition deps_closed :: "(string \<times> string list) list \<Rightarrow> bool" where
  "deps_closed data \<longleftrightarrow> (\<forall>(n, deps) \<in> set data. set deps \<subseteq> set (map fst data))"

text \<open>The keys of the classes of group \<open>g\<close>, in declaration order, and the value of a dict
  of lists at a key, empty when the key is missing.\<close>

definition names_of_group :: "(string \<times> Class) list \<Rightarrow> string \<Rightarrow> string list" where
  "names_of_group cs g = map fst (filter (\<lambda>(n, c). group c = g) cs)"

definition dict_get :: "('k \<times> 'v list) list \<Rightarrow> 'k \<Rightarrow> 'v list" where
  "dict_get d k = (case map_of d k of None \<Rightarrow> [] | Some xs \<Rightarrow> xs)"

text \<open>The groups in the order in which the sorter goes through them.\<close>

definition sorted_groups :: "(string \<times> Class) list \<Rightarrow> (string \<times> string list) list" where
  "sorted_groups cs = sort_key fst (group_names cs [])"

text \<open>The inheritance dict of the names \<open>ns\<close>, all of them keys of \<open>cs\<close>.\<close>

definition inheritance :: "(string \<times> Class) list \<Rightarrow> string list \<Rightarrow> (string \<times> string list) list" where
  "inheritance cs ns = map (\<lambda>n. (n, bases (the (map_of cs n)))) ns"

text \<open>The names of a group in the order in which its topological sort gives them, and
  the rounds of that sort.\<close>

definition group_order :: "(string \<times> Class) list \<Rightarrow> string list \<Rightarrow> string list" where
  "group_order cs ns =
     (case toposort_flatten (inheritance cs ns) of
        Inl e \<Rightarrow> []
      | Inr order \<Rightarrow> filter (\<lambda>n. n \<in> set ns) order)"

definition rounds :: "(string \<times> Class) list \<Rightarrow> string list \<Rightarrow> string list list" where
  "rounds cs ns = (case toposort (inheritance cs ns) of Inl e \<Rightarrow> [] | Inr ls \<Rightarrow> ls)"

text \<open>One element somewhere before another in a list.\<close>

definition before :: "'a list \<Rightarrow> 'a \<Rightarrow> 'a \<Rightarrow> bool" where
  "before xs a b \<longleftrightarrow> (\<exists>ys zs. xs = ys @ zs \<and> a \<in> set ys \<and> b \<in> set zs)"

text \<open>The index of the first round that holds \<open>k\<close>, and the round in which the
  topological sort of its group yields the class of key \<open>k\<close>.\<close>

definition round_index :: "'a list list \<Rightarrow> 'a \<Rightarrow> nat" where
  "round_index ls k = length (takeWhile (\<lambda>l. k \<notin> set l) ls)"

definition round_of :: "(string \<times> Class) list \<Rightarrow> string \<Rightarrow> nat" where
  "round_of cs k = round_index (rounds cs (names_of_group cs (group (the (map_of cs k))))) k"

section \<open>Properties\<close>

subsection \<open>Doc normalizer\<close>

lemma pop_trailing_split: "\<exists>post. xs = pop_trailing xs @ post \<and> set post \<subseteq> {[]}"
proof (induction xs rule: pop_trailing.induct)
  case (1 trimmed)
  show ?case
  proof (cases "trimmed \<noteq> [] \<and> last trimmed = []")
    case True
    with 1 obtain post where p: "butlast trimmed = pop_trailing (butlast trimmed) @ post" "set post \<subseteq> {[]}"
      by blast
    from True have "trimmed = butlast trimmed @ [[]]"
      by (metis append_butlast_last_id)
    with p have "trimmed = pop_trailing (butlast trimmed) @ (post @ [[]])"
      by (metis append.assoc)
    moreover have "pop_trailing trimmed = pop_trailing (butlast trimmed)"
      using True by (subst pop_trailing.simps) simp
    ultimately have "trimmed = pop_trailing trimmed @ (post @ [[]]) \<and> set (post @ [[]]) \<subseteq> {[]}"
      using p(2) by auto
    then show ?thesis by blast
  next
    case False
    then have "pop_trailing trimmed = trimmed"
      by (subst pop_trailing.simps) auto
    then show ?thesis by auto
  qed
qed

lemma pop_trailing_last: "pop_trailing xs = [] \<or> last (pop_trailing xs) \<noteq> []"
proof (induction xs rule: pop_trailing.induct)
  case (1 trimmed)
  show ?case
  proof (cases "trimmed \<noteq> [] \<and> last trimmed = []")
    case True
    then have "pop_trailing trimmed = pop_trailing (butlast trimmed)"
      by (subst pop_trailing.simps) simp
    with 1 True show ?thesis by simp
  next
    case False
    then have "pop_trailing trimmed = trimmed"
      by (subst pop_trailing.simps) auto
    with False show ?thesis by auto
  qed
qed

lemma pop_leading_split: "\<exists>pre. xs = pre @ pop_leading xs \<and> set pre \<subseteq> {[]}"
proof (induction xs)
  case Nil
  then show ?case by simp
next
  case (Cons l ls)
  show ?case
  proof (cases "l = []")
    case True
    from Cons obtain pre where "ls = pre @ pop_leading ls" "set pre \<subseteq> {[]}" by blast
    then have "l # ls = ([] # pre) @ pop_leading (l # ls) \<and> set ([] # pre) \<subseteq> {[]}"
      using True by auto
    then show ?thesis by blast
  next
    case False
    then have "l # ls = [] @ pop_leading (l # ls) \<and> set [] \<subseteq> {[]::string}" by simp
    then show ?thesis by blast
  qed
qed

lemma pop_leading_hd: "pop_leading xs = [] \<or> hd (pop_leading xs) \<noteq> []"
  by (induction xs) auto

lemma pop_leading_last: "pop_leading xs \<noteq> [] \<Longrightarrow> last (pop_leading xs) = last xs"
  by (induction xs) (auto split: if_splits)

lemma rstrip_last: "rstrip s = [] \<or> \<not> isspace (last (rstrip s))"
proof (cases "dropWhile isspace (rev s)")
  case Nil
  then show ?thesis by (simp add: rstrip_def)
next
  case (Cons x xs)
  then have "\<not> isspace x"
    by (metis hd_dropWhile list.distinct(1) list.sel(1))
  with Cons show ?thesis by (simp add: rstrip_def)
qed

lemma trimmed_of_rstripped: "l \<in> set (trimmed_of ls) \<Longrightarrow> l = [] \<or> \<not> isspace (last l)"
  using rstrip_last
  by (cases ls) (auto simp: trimmed_of_def strip_def split: if_splits)

lemma indents_of_empty: "indents_of later = [] \<longleftrightarrow> (\<forall>l \<in> set later. lstrip l = [])"
  by (auto simp: indents_of_def filter_empty_conv)

lemma set_indents_of:
  "set (indents_of later) = {length l - length (lstrip l) |l. l \<in> set later \<and> lstrip l \<noteq> []}"
  by (auto simp: indents_of_def)

lemma trimmed_of_Cons:
  "trimmed_of (first # later) =
     strip first #
       (if \<forall>l \<in> set later. lstrip l = [] then []
        else map (\<lambda>l. rstrip (drop (Min {length l - length (lstrip l) |l. l \<in> set later \<and> lstrip l \<noteq> []}) l)) later)"
proof (cases "indents_of later = []")
  case True
  then have "\<forall>l \<in> set later. lstrip l = []"
    by (simp add: indents_of_empty)
  then have "(if \<forall>l \<in> set later. lstrip l = [] then []
        else map (\<lambda>l. rstrip (drop (Min {length l - length (lstrip l) |l. l \<in> set later \<and> lstrip l \<noteq> []}) l)) later) = []"
    by (rule if_P)
  moreover have "trimmed_of (first # later) = [strip first]"
    using True by (simp add: trimmed_of_def)
  ultimately show ?thesis by simp
next
  case False
  then have m: "min_list (indents_of later) = Min {length l - length (lstrip l) |l. l \<in> set later \<and> lstrip l \<noteq> []}"
    using min_list_Min[of "indents_of later"] by (simp add: set_indents_of)
  from False have "\<not> (\<forall>l \<in> set later. lstrip l = [])"
    by (simp add: indents_of_empty)
  then have "(if \<forall>l \<in> set later. lstrip l = [] then []
        else map (\<lambda>l. rstrip (drop (Min {length l - length (lstrip l) |l. l \<in> set later \<and> lstrip l \<noteq> []}) l)) later) =
      map (\<lambda>l. rstrip (drop (Min {length l - length (lstrip l) |l. l \<in> set later \<and> lstrip l \<noteq> []}) l)) later"
    by (rule if_not_P)
  moreover have "trimmed_of (first # later) =
      strip first # map (\<lambda>line. rstrip (drop (min_list (indents_of later)) line)) later"
    using False by (simp add: trimmed_of_def)
  ultimately show ?thesis
    using m by simp
qed

lemma split_doc_Some:
  "d \<noteq> [] \<Longrightarrow> split_doc (Some d) = pop_leading (pop_trailing (trimmed_of (splitlines d)))"
  by (simp add: split_doc_def)

lemma split_doc_edges: "split_doc dc = [] \<or> (hd (split_doc dc) \<noteq> [] \<and> last (split_doc dc) \<noteq> [])"
proof (cases "\<exists>d. dc = Some d \<and> d \<noteq> []")
  case True
  then obtain d where d: "dc = Some d" "d \<noteq> []" by blast
  let ?t = "pop_trailing (trimmed_of (splitlines d))"
  show ?thesis
  proof (cases "pop_leading ?t = []")
    case True
    then show ?thesis using d by (simp add: split_doc_Some)
  next
    case False
    then have "?t \<noteq> []" by auto
    then have "last ?t \<noteq> []" using pop_trailing_last[of "trimmed_of (splitlines d)"] by simp
    then have "last (pop_leading ?t) \<noteq> []" using pop_leading_last[OF False] by simp
    moreover have "hd (pop_leading ?t) \<noteq> []" using pop_leading_hd[of ?t] False by simp
    ultimately show ?thesis using d by (simp add: split_doc_Some)
  qed
next
  case False
  then have "split_doc dc = []"
    by (cases dc) (auto simp: split_doc_def)
  then show ?thesis by simp
qed

lemma split_doc_rstripped: "l \<in> set (split_doc dc) \<Longrightarrow> l = [] \<or> \<not> isspace (last l)"
proof -
  assume a: "l \<in> set (split_doc dc)"
  then obtain d where d: "dc = Some d" "d \<noteq> []"
    by (cases dc) (auto simp: split_doc_def split: if_splits)
  obtain pre where pre: "pop_trailing (trimmed_of (splitlines d)) = pre @ split_doc dc"
    using pop_leading_split[of "pop_trailing (trimmed_of (splitlines d))"] d by (auto simp: split_doc_Some)
  obtain post where post: "trimmed_of (splitlines d) = pop_trailing (trimmed_of (splitlines d)) @ post"
    using pop_trailing_split[of "trimmed_of (splitlines d)"] by blast
  have "l \<in> set (trimmed_of (splitlines d))"
    by (subst post, subst pre) (use a in simp)
  then show ?thesis by (rule trimmed_of_rstripped)
qed

lemma split_doc_window:
  assumes "splitlines d = first # later"
  shows "\<exists>pre post. pre @ split_doc (Some d) @ post = trimmed_of (first # later) \<and> set pre \<subseteq> {[]} \<and> set post \<subseteq> {[]}"
proof -
  from assms have d: "d \<noteq> []" by auto
  obtain pre where pre: "pop_trailing (trimmed_of (splitlines d)) = pre @ split_doc (Some d)" "set pre \<subseteq> {[]}"
    using pop_leading_split[of "pop_trailing (trimmed_of (splitlines d))"] d by (auto simp: split_doc_Some)
  obtain post where post: "trimmed_of (splitlines d) = pop_trailing (trimmed_of (splitlines d)) @ post" "set post \<subseteq> {[]}"
    using pop_trailing_split[of "trimmed_of (splitlines d)"] by blast
  have "pre @ split_doc (Some d) @ post = trimmed_of (first # later)"
    using pre(1) post(1) assms by simp
  then show ?thesis using pre(2) post(2) by blast
qed

text \<open>
  C3, as amended. \<open>split_doc\<close> turns \<^verbatim>\<open>"Summary\n    line one\n    line two"\<close> into
  \<open>["Summary", "line one", "line two"]\<close> and \<^verbatim>\<open>"Summary\n\n   \n  indented"\<close> into
  \<open>["Summary", "", "", "indented"]\<close>: blank lines inside the text stay. In general no line
  of the result ends in whitespace; the result is empty or begins and ends with a line
  that is not blank; and it is what is left, after blank lines are taken off both ends,
  of the stripped first line followed, when some later line is not blank, by every later
  line without its first \<open>indent\<close> characters and without trailing whitespace, \<open>indent\<close>
  being the least indentation of the later lines that are not blank (when all of them
  are blank, nothing follows the first line).
\<close>

theorem split_doc_normalizes:
  "split_doc (Some ''Summary\<newline>    line one\<newline>    line two'') = [''Summary'', ''line one'', ''line two''] \<and>
   split_doc (Some ''Summary\<newline>\<newline>   \<newline>  indented'') = [''Summary'', [], [], ''indented''] \<and>
   (\<forall>l \<in> set (split_doc dc). l = [] \<or> \<not> isspace (last l)) \<and>
   (split_doc dc = [] \<or> (hd (split_doc dc) \<noteq> [] \<and> last (split_doc dc) \<noteq> [])) \<and>
   (splitlines d = first # later \<longrightarrow>
      (\<exists>pre post.
         pre @ split_doc (Some d) @ post =
           strip first #
             (if \<forall>l \<in> set later. lstrip l = [] then []
              else map (\<lambda>l. rstrip (drop (Min {length l - length (lstrip l) |l. l \<in> set later \<and> lstrip l \<noteq> []}) l)) later) \<and>
         set pre \<subseteq> {[]} \<and> set post \<subseteq> {[]}))"
proof (intro conjI impI ballI)
  show "split_doc (Some ''Summary\<newline>    line one\<newline>    line two'') = [''Summary'', ''line one'', ''line two'']"
    by code_simp
  show "split_doc (Some ''Summary\<newline>\<newline>   \<newline>  indented'') = [''Summary'', [], [], ''indented'']"
    by code_simp
  show "split_doc dc = [] \<or> (hd (split_doc dc) \<noteq> [] \<and> last (split_doc dc) \<noteq> [])"
    by (rule split_doc_edges)
next
  fix l assume "l \<in> set (split_doc dc)"
  then show "l = [] \<or> \<not> isspace (last l)"
    by (rule split_doc_rstripped)
next
  assume "splitlines d = first # later"
  from split_doc_window[OF this] show "\<exists>pre post.
         pre @ split_doc (Some d) @ post =
           strip first #
             (if \<forall>l \<in> set later. lstrip l = [] then []
              else map (\<lambda>l. rstrip (drop (Min {length l - length (lstrip l) |l. l \<in> set later \<and> lstrip l \<noteq> []}) l)) later) \<and>
         set pre \<subseteq> {[]} \<and> set post \<subseteq> {[]}"
    unfolding trimmed_of_Cons .
qed

theorem split_doc_normalizes_witness:
  "splitlines ''a\<newline>  b'' = [''a'', ''  b''] \<and>
   (\<exists>pre post.
      pre @ split_doc (Some ''a\<newline>  b'') @ post =
        strip ''a'' #
          (if \<forall>l \<in> set [''  b'']. lstrip l = [] then []
           else map (\<lambda>l. rstrip (drop (Min {length l - length (lstrip l) |l. l \<in> set [''  b''] \<and> lstrip l \<noteq> []}) l)) [''  b'']) \<and>
      set pre \<subseteq> {[]} \<and> set post \<subseteq> {[]})"
proof -
  have s: "splitlines ''a\<newline>  b'' = [''a'', ''  b'']"
    by code_simp
  from split_doc_normalizes[of "Some ''a\<newline>  b''" "''a\<newline>  b''" "''a''" "[''  b'']"] s
  show ?thesis by blast
qed

text \<open>C3 as stated: the second example is said to give \<open>["Summary", "indented"]\<close>.\<close>

theorem split_doc_inner_blank_lines_counterexample:
  "split_doc (Some ''Summary\<newline>\<newline>   \<newline>  indented'') \<noteq> [''Summary'', ''indented'']"
  by code_simp

subsection \<open>Property model\<close>

lemma rstrip_chars_decomp:
  "\<exists>k. n = rstrip_chars [c] n @ replicate k c"
proof -
  have "rev n = takeWhile (\<lambda>x. x = c) (rev n) @ dropWhile (\<lambda>x. x = c) (rev n)"
    by simp
  moreover have "takeWhile (\<lambda>x. x = c) (rev n) = replicate (length (takeWhile (\<lambda>x. x = c) (rev n))) c"
    by (metis (mono_tags, lifting) replicate_length_same set_takeWhileD)
  ultimately have "rev n = replicate (length (takeWhile (\<lambda>x. x = c) (rev n))) c @ dropWhile (\<lambda>x. x = c) (rev n)"
    by simp
  then have "n = rev (dropWhile (\<lambda>x. x = c) (rev n)) @ replicate (length (takeWhile (\<lambda>x. x = c) (rev n))) c"
    by (metis rev_append rev_replicate rev_rev_ident)
  then show ?thesis
    by (auto simp: rstrip_chars_def)
qed

lemma rstrip_chars_last: "rstrip_chars [c] n = [] \<or> last (rstrip_chars [c] n) \<noteq> c"
proof (cases "dropWhile (\<lambda>x. x = c) (rev n)")
  case Nil
  then show ?thesis by (simp add: rstrip_chars_def)
next
  case (Cons x xs)
  then have "x \<noteq> c"
    by (metis (full_types) hd_dropWhile list.distinct(1) list.sel(1))
  with Cons show ?thesis by (simp add: rstrip_chars_def)
qed

text \<open>
  C9, as amended. The naming modifier stores the declared name without all of its
  trailing underscores: the declared name is the stored name followed by underscores
  only, and the stored name does not end in an underscore. So a name without a trailing
  underscore is stored unchanged, and \<open>class_\<close> is stored as \<open>class\<close>. No other field of
  the property changes.
\<close>

theorem namer_strips_trailing_underscores:
  assumes "make_property a = Inr p"
  shows "\<exists>s k. ror (PropertyNamer n) a = Inr (p\<lparr>name := Some s\<rparr>) \<and>
           n = s @ replicate k (CHR ''_'') \<and> (s = [] \<or> last s \<noteq> CHR ''_'')"
proof -
  obtain k where "n = rstrip_chars ''_'' n @ replicate k (CHR ''_'')"
    using rstrip_chars_decomp[of n "CHR ''_''"] by auto
  moreover have "ror (PropertyNamer n) a = Inr (p\<lparr>name := Some (rstrip_chars ''_'' n)\<rparr>)"
    using assms by (simp add: ror_def)
  ultimately show ?thesis
    using rstrip_chars_last[of "CHR ''_''" n] by blast
qed

theorem namer_strips_trailing_underscores_witness:
  "make_property (Ref (TypeStr ''int'')) = Inr (SingleProperty ''int'') \<and>
   ror (PropertyNamer ''class_'') (Ref (TypeStr ''int'')) =
     Inr ((SingleProperty ''int'')\<lparr>name := Some ''class''\<rparr>) \<and>
   (\<exists>s k. ror (PropertyNamer ''class_'') (Ref (TypeStr ''int'')) =
       Inr ((SingleProperty ''int'')\<lparr>name := Some s\<rparr>) \<and>
     ''class_'' = s @ replicate k (CHR ''_'') \<and> (s = [] \<or> last s \<noteq> CHR ''_''))"
proof -
  have m: "make_property (Ref (TypeStr ''int'')) = Inr (SingleProperty ''int'')"
    by simp
  have r: "ror (PropertyNamer ''class_'') (Ref (TypeStr ''int'')) =
     Inr ((SingleProperty ''int'')\<lparr>name := Some ''class''\<rparr>)"
    by (simp add: ror_def rstrip_chars_def)
  from namer_strips_trailing_underscores[OF m, of "''class_''"] m r show ?thesis
    by blast
qed

text \<open>C9 as stated: of a declared name that ends in an underscore, the stored name is the
  declared name without that one underscore. Of \<open>x__\<close> the stored name is \<open>x\<close>, not \<open>x_\<close>.\<close>

theorem namer_two_underscores_counterexample:
  "ror (PropertyNamer ''x__'') (Ref (TypeStr ''int'')) =
     Inr ((SingleProperty ''int'')\<lparr>name := Some ''x''\<rparr>) \<and>
   last ''x__'' = CHR ''_'' \<and> ''x'' \<noteq> butlast ''x__''"
  by (simp add: ror_def rstrip_chars_def)

lemma make_property_typed:
  assumes "make_property a = Inr p" and "\<forall>q. a = Prop q \<longrightarrow> (type q = None \<longleftrightarrow> kind q = PREDICATE)"
  shows "type p = None \<longleftrightarrow> kind p = PREDICATE"
  using assms
  by (cases a) (auto simp: SingleProperty_def PredicateProperty_def Property_of_def)

lemma modify_typed:
  assumes "modify m p = Inr p'" and "type p = None \<longleftrightarrow> kind p = PREDICATE"
    and "\<forall>f q q'. m = OtherModifier f \<longrightarrow> f q = Inr q' \<longrightarrow>
           (type q = None \<longleftrightarrow> kind q = PREDICATE) \<longrightarrow> (type q' = None \<longleftrightarrow> kind q' = PREDICATE)"
  shows "type p' = None \<longleftrightarrow> kind p' = PREDICATE"
proof (cases m)
  case PropertyModifier
  with assms(1) show ?thesis by simp
next
  case (PropertyNamer n)
  with assms(1,2) show ?thesis by auto
next
  case (OtherModifier f)
  with assms(1) have "f p = Inr p'" by simp
  from assms(3)[rule_format, OF OtherModifier this assms(2)] show ?thesis .
qed

lemma ror_typed:
  assumes "ror m a = Inr p" and "\<forall>q. a = Prop q \<longrightarrow> (type q = None \<longleftrightarrow> kind q = PREDICATE)"
    and "\<forall>f q q'. m = OtherModifier f \<longrightarrow> f q = Inr q' \<longrightarrow>
           (type q = None \<longleftrightarrow> kind q = PREDICATE) \<longrightarrow> (type q' = None \<longleftrightarrow> kind q' = PREDICATE)"
  shows "type p = None \<longleftrightarrow> kind p = PREDICATE"
proof -
  from assms(1) obtain p0 where p0: "make_property a = Inr p0" "modify m p0 = Inr p"
    by (auto simp: ror_def split: sum.splits)
  from make_property_typed[OF p0(1) assms(2)]
  have "type p0 = None \<longleftrightarrow> kind p0 = PREDICATE" .
  with p0(2) show ?thesis
    using assms(3) by (rule modify_typed)
qed

text \<open>
  C8, as amended. For every \<open>Property\<close> that the pipeline produces from a type reference,
  from the predicate marker, or from an existing \<open>Property\<close> whose type is absent exactly
  when its kind is \<open>PREDICATE\<close>, with any sequence of modifiers applied each of which,
  when it returns, leaves that true of a property of which it was true, the type is
  absent if and only if the kind is \<open>PREDICATE\<close>. The base class and \<open>_PropertyNamer\<close> are
  such modifiers; the condition bears on the subclasses defined elsewhere.
\<close>

theorem pipeline_type_iff_not_predicate:
  assumes "pipeline a m ms = Inr p"
    and "\<forall>q. a = Prop q \<longrightarrow> (type q = None \<longleftrightarrow> kind q = PREDICATE)"
    and "\<forall>f q q'. OtherModifier f \<in> set (m # ms) \<longrightarrow> f q = Inr q' \<longrightarrow>
           (type q = None \<longleftrightarrow> kind q = PREDICATE) \<longrightarrow> (type q' = None \<longleftrightarrow> kind q' = PREDICATE)"
  shows "type p = None \<longleftrightarrow> kind p = PREDICATE"
  using assms
proof (induction ms arbitrary: a m)
  case Nil
  from Nil.prems(3)
  have "\<forall>f q q'. m = OtherModifier f \<longrightarrow> f q = Inr q' \<longrightarrow>
           (type q = None \<longleftrightarrow> kind q = PREDICATE) \<longrightarrow> (type q' = None \<longleftrightarrow> kind q' = PREDICATE)"
    by simp
  with Nil.prems(1,2) show ?case
    using ror_typed[of m a p] by simp
next
  case (Cons m' ms)
  from Cons.prems(1) obtain p1 where p1: "ror m a = Inr p1" "pipeline (Prop p1) m' ms = Inr p"
    by (auto split: sum.splits)
  from Cons.prems(3)
  have h: "\<forall>f q q'. m = OtherModifier f \<longrightarrow> f q = Inr q' \<longrightarrow>
           (type q = None \<longleftrightarrow> kind q = PREDICATE) \<longrightarrow> (type q' = None \<longleftrightarrow> kind q' = PREDICATE)"
    and t: "\<forall>f q q'. OtherModifier f \<in> set (m' # ms) \<longrightarrow> f q = Inr q' \<longrightarrow>
           (type q = None \<longleftrightarrow> kind q = PREDICATE) \<longrightarrow> (type q' = None \<longleftrightarrow> kind q' = PREDICATE)"
    by simp_all
  have "type p1 = None \<longleftrightarrow> kind p1 = PREDICATE"
    using p1(1) Cons.prems(2) h by (rule ror_typed)
  then have "\<forall>q. Prop p1 = Prop q \<longrightarrow> (type q = None \<longleftrightarrow> kind q = PREDICATE)"
    by simp
  with p1(2) show ?case
    using t by (rule Cons.IH)
qed

theorem pipeline_type_iff_not_predicate_witness:
  "pipeline (Ref (TypeObj ''Expr'')) optionalizer [PropertyNamer ''body_''] =
     Inr ((SingleProperty ''Expr'')\<lparr>kind := OPTIONAL, name := Some ''body''\<rparr>) \<and>
   type ((SingleProperty ''Expr'')\<lparr>kind := OPTIONAL, name := Some ''body''\<rparr>) = Some ''Expr'' \<and>
   kind ((SingleProperty ''Expr'')\<lparr>kind := OPTIONAL, name := Some ''body''\<rparr>) = OPTIONAL \<and>
   ((type ((SingleProperty ''Expr'')\<lparr>kind := OPTIONAL, name := Some ''body''\<rparr>) = None) =
    (kind ((SingleProperty ''Expr'')\<lparr>kind := OPTIONAL, name := Some ''body''\<rparr>) = PREDICATE))"
proof -
  have e: "pipeline (Ref (TypeObj ''Expr'')) optionalizer [PropertyNamer ''body_''] =
     Inr ((SingleProperty ''Expr'')\<lparr>kind := OPTIONAL, name := Some ''body''\<rparr>)"
    by (simp add: ror_def rstrip_chars_def optionalizer_def SingleProperty_def Property_of_def)
  have h: "\<forall>q. Ref (TypeObj ''Expr'') = Prop q \<longrightarrow> (type q = None \<longleftrightarrow> kind q = PREDICATE)"
    by simp
  have k: "\<forall>f q q'. OtherModifier f \<in> set (optionalizer # [PropertyNamer ''body_'']) \<longrightarrow> f q = Inr q' \<longrightarrow>
           (type q = None \<longleftrightarrow> kind q = PREDICATE) \<longrightarrow> (type q' = None \<longleftrightarrow> kind q' = PREDICATE)"
    by (auto simp: optionalizer_def split: if_splits)
  from pipeline_type_iff_not_predicate[OF e h k] e show ?thesis
    by (simp add: SingleProperty_def Property_of_def)
qed

text \<open>C8 as stated, twice. An existing \<open>Property\<close> of kind \<open>SINGLE\<close> without a type, as
  \<open>Property(Property.Kind.SINGLE)\<close> builds it, goes through the pipeline unchanged but for
  its name. And a modifier that sets the kind to \<open>REPEATED\<close>, applied to the predicate
  marker, gives a property of kind \<open>REPEATED\<close> without a type.\<close>

theorem existing_property_counterexample:
  "pipeline (Prop (Property_of SINGLE)) (PropertyNamer ''x'') [] =
     Inr ((Property_of SINGLE)\<lparr>name := Some ''x''\<rparr>) \<and>
   type ((Property_of SINGLE)\<lparr>name := Some ''x''\<rparr>) = None \<and>
   kind ((Property_of SINGLE)\<lparr>name := Some ''x''\<rparr>) \<noteq> PREDICATE \<and>
   pipeline PredicateMarker (kind_setter REPEATED) [] = Inr (PredicateProperty\<lparr>kind := REPEATED\<rparr>) \<and>
   type (PredicateProperty\<lparr>kind := REPEATED\<rparr>) = None \<and>
   kind (PredicateProperty\<lparr>kind := REPEATED\<rparr>) \<noteq> PREDICATE"
  by (simp add: ror_def rstrip_chars_def Property_of_def kind_setter_def PredicateProperty_def)

subsection \<open>Class builder\<close>

lemma name_properties_error:
  "name_properties xs = Inl e \<Longrightarrow> \<exists>s. e = Error (''Illegal property specifier '' @ s)"
proof (induction xs)
  case Nil
  then show ?case by simp
next
  case (Cons x xs)
  obtain n a where x: "x = (n, a)" by (cases x)
  show ?case
  proof (cases "ror (PropertyNamer n) a")
    case (Inl e')
    then have "e = e'" using Cons.prems x by simp
    moreover from Inl have "\<exists>s. a = OtherObject s \<and> e' = Error (''Illegal property specifier '' @ s)"
      by (cases a) (auto simp: ror_def)
    ultimately show ?thesis by blast
  next
    case (Inr p)
    then have "name_properties xs = Inl e"
      using Cons.prems x by (auto split: sum.splits)
    then show ?thesis by (rule Cons.IH)
  qed
qed

text \<open>
  C6, as amended. Building a \<open>Class\<close> from a class fails with the error "Class name must
  be capitalized" if and only if the first character of the declared name is a lowercase
  letter. A name that begins with any other character, an underscore for one, passes
  this check.
\<close>

theorem capitalized_error_iff:
  "get_class (PyType cls) = Inl (Error (''Class name must be capitalized, found '' @ py_name cls))
     \<longleftrightarrow> py_name cls \<noteq> [] \<and> islower (hd (py_name cls))"
proof (cases "py_name cls")
  case Nil
  then show ?thesis by (simp add: get_class_def)
next
  case (Cons c rest)
  show ?thesis
  proof (cases "islower c")
    case True
    then show ?thesis using Cons by (simp add: get_class_def)
  next
    case False
    have "get_class (PyType cls) \<noteq> Inl (Error (''Class name must be capitalized, found '' @ py_name cls))"
    proof
      assume a: "get_class (PyType cls) = Inl (Error (''Class name must be capitalized, found '' @ py_name cls))"
      show False
      proof (cases "length (remdups (base_groups (py_bases cls))) > 1")
        case True
        then show False using a Cons False by (simp add: get_class_def)
      next
        case g: False
        then have "name_properties (case py_annotations cls of None \<Rightarrow> [] | Some a \<Rightarrow> a) =
            Inl (Error (''Class name must be capitalized, found '' @ py_name cls))"
          using a Cons False by (auto simp: get_class_def split: sum.splits)
        from name_properties_error[OF this] show False by simp
      qed
    qed
    then show ?thesis using Cons False by simp
  qed
qed

theorem capitalized_error_iff_witness:
  "get_class (PyType (plain_class ''expr'' [PyObject] [] None)) =
     Inl (Error ''Class name must be capitalized, found expr'') \<and>
   islower (hd ''expr'') \<and>
   get_class (PyType (plain_class ''Expr'' [PyObject] [] None)) \<noteq>
     Inl (Error ''Class name must be capitalized, found Expr'') \<and>
   \<not> islower (hd ''Expr'')"
proof -
  have l: "islower (hd ''expr'')" and u: "\<not> islower (hd ''Expr'')"
    by (simp_all add: islower_def)
  from capitalized_error_iff[of "plain_class ''expr'' [PyObject] [] None"]
    capitalized_error_iff[of "plain_class ''Expr'' [PyObject] [] None"] l u
  show ?thesis
    by (simp add: plain_class_def)
qed

text \<open>C6 as stated: a declared name that does not begin with an uppercase letter is
  rejected. The name \<open>_Foo\<close> is accepted.\<close>

theorem underscore_name_accepted_counterexample:
  "get_class (PyType (plain_class ''_Foo'' [PyObject] [] None)) = Inr (Class_of ''_Foo'' [] []) \<and>
   \<not> isupper (hd ''_Foo'')"
  by (simp add: get_class_def plain_class_def Class_of_def islower_def isupper_def split_doc_def)

lemma set_base_groups: "set (base_groups bs) = {g. \<exists>n. PyBase n (Some g) \<in> set bs}"
  by (induction bs rule: base_groups.induct) auto

lemma remdups_many: "1 < length (remdups xs) \<longleftrightarrow> (\<exists>a \<in> set xs. \<exists>b \<in> set xs. a \<noteq> b)"
proof -
  have "1 < length (remdups xs) \<longleftrightarrow> 1 < card (set xs)"
    by (simp add: length_remdups_card_conv)
  also have "\<dots> \<longleftrightarrow> (\<exists>a \<in> set xs. \<exists>b \<in> set xs. a \<noteq> b)"
  proof
    assume "1 < card (set xs)"
    then show "\<exists>a \<in> set xs. \<exists>b \<in> set xs. a \<noteq> b"
      by (metis card_le_Suc0_iff_eq List.finite_set not_less One_nat_def)
  next
    assume "\<exists>a \<in> set xs. \<exists>b \<in> set xs. a \<noteq> b"
    then show "1 < card (set xs)"
      by (metis card_le_Suc0_iff_eq List.finite_set not_less One_nat_def)
  qed
  finally show ?thesis .
qed

text \<open>
  C7, as amended. For a class whose name passes the capitalization check, building the
  \<open>Class\<close> fails with the error "Bases with mixed groups" if and only if two of its direct
  bases that have a \<open>_group\<close> attribute carry different group tags. A base without the
  attribute is left out of the comparison.
\<close>

theorem mixed_groups_error_iff:
  assumes "py_name cls \<noteq> []" and "\<not> islower (hd (py_name cls))"
  shows "get_class (PyType cls) = Inl (Error (''Bases with mixed groups for '' @ py_name cls))
     \<longleftrightarrow> (\<exists>n1 g1 n2 g2. PyBase n1 (Some g1) \<in> set (py_bases cls) \<and>
            PyBase n2 (Some g2) \<in> set (py_bases cls) \<and> g1 \<noteq> g2)"
proof -
  obtain c rest where n: "py_name cls = c # rest" "\<not> islower c"
    using assms by (cases "py_name cls") auto
  have m: "1 < length (remdups (base_groups (py_bases cls))) \<longleftrightarrow>
      (\<exists>n1 g1 n2 g2. PyBase n1 (Some g1) \<in> set (py_bases cls) \<and>
            PyBase n2 (Some g2) \<in> set (py_bases cls) \<and> g1 \<noteq> g2)"
    unfolding remdups_many set_base_groups by blast
  show ?thesis
  proof (cases "1 < length (remdups (base_groups (py_bases cls)))")
    case True
    then show ?thesis using n m by (simp add: get_class_def)
  next
    case False
    have "get_class (PyType cls) \<noteq> Inl (Error (''Bases with mixed groups for '' @ py_name cls))"
    proof
      assume "get_class (PyType cls) = Inl (Error (''Bases with mixed groups for '' @ py_name cls))"
      then have "name_properties (case py_annotations cls of None \<Rightarrow> [] | Some a \<Rightarrow> a) =
            Inl (Error (''Bases with mixed groups for '' @ py_name cls))"
        using n False by (auto simp: get_class_def split: sum.splits)
      from name_properties_error[OF this] show False by simp
    qed
    then show ?thesis using False m by simp
  qed
qed

theorem mixed_groups_error_iff_witness:
  "py_name (plain_class ''C'' [PyBase ''X'' (Some ''a''), PyBase ''Y'' (Some ''b'')] [] (Some ''a'')) \<noteq> [] \<and>
   \<not> islower (hd (py_name (plain_class ''C'' [PyBase ''X'' (Some ''a''), PyBase ''Y'' (Some ''b'')] [] (Some ''a'')))) \<and>
   get_class (PyType (plain_class ''C'' [PyBase ''X'' (Some ''a''), PyBase ''Y'' (Some ''b'')] [] (Some ''a''))) =
     Inl (Error ''Bases with mixed groups for C'')"
proof -
  let ?c = "plain_class ''C'' [PyBase ''X'' (Some ''a''), PyBase ''Y'' (Some ''b'')] [] (Some ''a'')"
  have n: "py_name ?c \<noteq> []" and l: "\<not> islower (hd (py_name ?c))"
    by (simp_all add: plain_class_def islower_def)
  have "\<exists>n1 g1 n2 g2. PyBase n1 (Some g1) \<in> set (py_bases ?c) \<and>
            PyBase n2 (Some g2) \<in> set (py_bases ?c) \<and> g1 \<noteq> g2"
    by (rule exI[of _ "''X''"], rule exI[of _ "''a''"], rule exI[of _ "''Y''"], rule exI[of _ "''b''"])
      (simp add: plain_class_def)
  with mixed_groups_error_iff[OF n l] n l show ?thesis
    by (simp add: plain_class_def)
qed

text \<open>C7 as stated: two direct bases with different effective group tags make the
  builder fail. A base without a group attribute, whose effective group is the empty
  string, beside a base of group \<open>g\<close> does not.\<close>

theorem ungrouped_base_counterexample:
  "get_class (PyType (plain_class ''C'' [PyBase ''X'' None, PyBase ''Y'' (Some ''g'')] [] (Some ''g''))) =
     Inr (Class_of ''C'' [''X'', ''Y''] ''g'') \<and>
   effective_group (PyBase ''X'' None) \<noteq> effective_group (PyBase ''Y'' (Some ''g''))"
  by (simp add: get_class_def plain_class_def Class_of_def islower_def split_doc_def)

subsection \<open>Type validation\<close>

lemma and_then_Inr: "and_then r s = Inr u \<longleftrightarrow> (\<exists>v. r = Inr v) \<and> s = Inr u"
  by (cases r) (simp_all add: and_then_def)

lemma and_then_Inl: "and_then r s = Inl e \<longleftrightarrow> r = Inl e \<or> ((\<exists>v. r = Inr v) \<and> s = Inl e)"
  by (cases r) (simp_all add: and_then_def)

lemma check_type_Inr: "check_type t known = Inr u \<longleftrightarrow> (\<forall>n. t = Some n \<longrightarrow> n \<in> known)"
  by (cases t) (simp_all add: check_type_def)

lemma check_type_Inl:
  "check_type t known = Inl e \<longleftrightarrow> (\<exists>n. t = Some n \<and> n \<notin> known \<and> e = Error (''Unknown type '' @ n))"
  by (cases t) (auto simp: check_type_def)

lemma for_each_check_Inr:
  "for_each (\<lambda>x. check_type (f x) known) xs = Inr u \<longleftrightarrow> (\<forall>x \<in> set xs. \<forall>n. f x = Some n \<longrightarrow> n \<in> known)"
  by (induction xs) (auto simp: and_then_Inr check_type_Inr)

lemma for_each_check_Inl:
  "for_each (\<lambda>x. check_type (f x) known) xs = Inl e \<Longrightarrow>
     \<exists>x \<in> set xs. \<exists>n. f x = Some n \<and> n \<notin> known \<and> e = Error (''Unknown type '' @ n)"
  by (induction xs) (auto simp: and_then_Inl check_type_Inl)

lemma check_types_Inr: "check_types c known = Inr u \<longleftrightarrow> type_refs c \<subseteq> known"
  unfolding check_types_def type_refs_def
  by (auto simp: and_then_Inr for_each_check_Inr check_type_Inr split: option.splits)

lemma check_types_Inl:
  assumes "check_types c known = Inl e"
  shows "\<exists>t. t \<in> type_refs c \<and> t \<notin> known \<and> e = Error (''Unknown type '' @ t)"
proof -
  let ?bad = "\<lambda>S. \<exists>t. t \<in> S \<and> t \<notin> known \<and> e = Error (''Unknown type '' @ t)"
  have b: "for_each (\<lambda>b. check_type (Some b) known) (bases c) = Inl e \<Longrightarrow> ?bad (set (bases c))"
    by (drule for_each_check_Inl) auto
  have d: "for_each (\<lambda>d. check_type (Some d) known) (derived c) = Inl e \<Longrightarrow> ?bad (set (derived c))"
    by (drule for_each_check_Inl) auto
  have p: "for_each (\<lambda>p. check_type (type p) known) (properties c) = Inl e \<Longrightarrow>
      ?bad {t. \<exists>p \<in> set (properties c). type p = Some t}"
    by (drule for_each_check_Inl) auto
  have f: "\<And>i. check_type (from_class i) known = Inl e \<Longrightarrow> ?bad {t. from_class i = Some t}"
    by (auto simp: check_type_Inl)
  have a: "\<And>args. for_each (\<lambda>t. check_type (Some t) known) (map snd args) = Inl e \<Longrightarrow>
      ?bad (snd ` set args)"
    by (drule for_each_check_Inl) auto
  from assms consider
      "for_each (\<lambda>b. check_type (Some b) known) (bases c) = Inl e"
    | "for_each (\<lambda>d. check_type (Some d) known) (derived c) = Inl e"
    | "for_each (\<lambda>p. check_type (type p) known) (properties c) = Inl e"
    | i where "ipa c = Some i" "check_type (from_class i) known = Inl e"
    | i args where "ipa c = Some i" "on_arguments i = Some args"
        "for_each (\<lambda>t. check_type (Some t) known) (map snd args) = Inl e"
    unfolding check_types_def
    by (auto simp: and_then_Inl split: option.splits)
  then show ?thesis
  proof cases
    case 1
    from b[OF 1] show ?thesis by (auto simp: type_refs_def)
  next
    case 2
    from d[OF 2] show ?thesis by (auto simp: type_refs_def)
  next
    case 3
    from p[OF 3] show ?thesis unfolding type_refs_def by blast
  next
    case 4
    from f[OF 4(2)] 4(1) show ?thesis unfolding type_refs_def by auto
  next
    case 5
    from a[OF 5(3)] 5(1,2) show ?thesis unfolding type_refs_def by auto
  qed
qed

text \<open>
  C5. \<open>check_types\<close> raises \<open>Error\<close> with the message "Unknown type t", for a name \<open>t\<close> among
  the bases, the derived names, the property types that are present and the IPA
  references that are present which is not in \<open>known\<close>, if and only if there is such a
  name; when every such name is in \<open>known\<close> it returns. It returns nothing and assigns to
  nothing, so the class is as it was.
\<close>

theorem check_types_unknown_iff:
  "(type_refs c \<subseteq> known \<longrightarrow> check_types c known = Inr ()) \<and>
   (\<not> type_refs c \<subseteq> known \<longrightarrow>
      (\<exists>t. t \<in> type_refs c \<and> t \<notin> known \<and> check_types c known = Inl (Error (''Unknown type '' @ t))))"
proof (intro conjI impI)
  assume "type_refs c \<subseteq> known"
  then show "check_types c known = Inr ()"
    by (simp add: check_types_Inr)
next
  assume n: "\<not> type_refs c \<subseteq> known"
  then have "\<forall>u. check_types c known \<noteq> Inr u"
    by (simp add: check_types_Inr)
  then obtain e where e: "check_types c known = Inl e"
    by (cases "check_types c known") auto
  from check_types_Inl[OF e] e
  show "\<exists>t. t \<in> type_refs c \<and> t \<notin> known \<and> check_types c known = Inl (Error (''Unknown type '' @ t))"
    by auto
qed

theorem check_types_unknown_iff_witness:
  "type_refs ((Class_of ''B'' [''A''] [])\<lparr>properties := [SingleProperty ''Unknown'']\<rparr>) = {''A'', ''Unknown''} \<and>
   check_types ((Class_of ''B'' [''A''] [])\<lparr>properties := [SingleProperty ''Unknown'']\<rparr>)
     {''A'', ''Unknown'', ''int''} = Inr () \<and>
   check_types ((Class_of ''B'' [''A''] [])\<lparr>properties := [SingleProperty ''Unknown'']\<rparr>)
     {''A'', ''int''} = Inl (Error ''Unknown type Unknown'')"
proof -
  let ?c = "(Class_of ''B'' [''A''] [])\<lparr>properties := [SingleProperty ''Unknown'']\<rparr>"
  have r: "type_refs ?c = {''A'', ''Unknown''}"
    by (auto simp: type_refs_def Class_of_def SingleProperty_def Property_of_def)
  have "type_refs ?c \<subseteq> {''A'', ''Unknown'', ''int''}" and "\<not> type_refs ?c \<subseteq> {''A'', ''int''}"
    unfolding r by simp_all
  with check_types_unknown_iff[of ?c "{''A'', ''Unknown'', ''int''}"]
    check_types_unknown_iff[of ?c "{''A'', ''int''}"] r
  show ?thesis by auto
qed

subsection \<open>Schema loader\<close>

text \<open>
  C1. Only a second class without bases is to be refused. In \<open>derived_first_module\<close> the
  class \<open>A\<close>, which has a base, comes before \<open>Root\<close>, the first and only class without
  bases; \<open>load\<close> refuses \<open>Root\<close> as a second root.
\<close>

theorem load_refuses_first_root:
  "load (\<lambda>n. False) derived_first_module =
     Inl (Error ''Only one root class allowed, found second root Root'')"
  by (simp add: load_def known_of_def derived_first_module_def plain_class_def get_class_def
      islower_def startswith_def split_doc_def check_types_def and_then_def check_type_def)

subsection \<open>The \<open>toposort\<close> package\<close>

lemma toposort_loop_done:
  assumes "toposort_loop data = Inr ls" and "toposort_ready data = []"
  shows "data = []" and "ls = []"
  using assms by (subst (asm) toposort_loop.simps, simp split: if_splits)+

lemma toposort_loop_step:
  assumes "toposort_loop data = Inr ls" and "toposort_ready data \<noteq> []"
  obtains rest where "toposort_loop (toposort_remove (toposort_ready data) data) = Inr rest"
    and "ls = toposort_ready data # rest"
  using assms by (subst (asm) toposort_loop.simps) (simp split: sum.splits)

lemma toposort_loop_Inl:
  "toposort_loop data = Inl e \<Longrightarrow> e = CircularDependencyError"
proof (induction data rule: toposort_loop.induct)
  case (1 data)
  show ?case
  proof (cases "toposort_ready data = []")
    case True
    with "1.prems" show ?thesis
      by (subst (asm) toposort_loop.simps) (auto split: if_splits)
  next
    case False
    with "1.prems" have "toposort_loop (toposort_remove (toposort_ready data) data) = Inl e"
      by (subst (asm) toposort_loop.simps) (auto split: sum.splits)
    with False show ?thesis by (rule "1.IH")
  qed
qed

lemma keys_toposort_remove:
  "map fst (toposort_remove ordered data) = filter (\<lambda>k. k \<notin> set ordered) (map fst data)"
  by (induction data) (auto simp: toposort_remove_def)

lemma keyset_toposort_remove:
  "set (map fst (toposort_remove ordered data)) = set (map fst data) - set ordered"
  unfolding keys_toposort_remove by auto

lemma set_toposort_ready: "set (toposort_ready data) = {k. (k, []) \<in> set data}"
  by (induction data) (auto simp: toposort_ready_def)

lemma toposort_ready_subset: "set (toposort_ready data) \<subseteq> set (map fst data)"
  by (force simp: toposort_ready_def)

lemma distinct_toposort_ready: "distinct (map fst data) \<Longrightarrow> distinct (toposort_ready data)"
  unfolding toposort_ready_def by (rule distinct_map_filter)

lemma toposort_loop_keys:
  "toposort_loop data = Inr ls \<Longrightarrow> set (concat ls) = set (map fst data)"
proof (induction data arbitrary: ls rule: toposort_loop.induct)
  case (1 data)
  show ?case
  proof (cases "toposort_ready data = []")
    case True
    with "1.prems" have "data = []" "ls = []"
      by (rule toposort_loop_done)+
    then show ?thesis by simp
  next
    case False
    with "1.prems"(1) obtain rest where
      r: "toposort_loop (toposort_remove (toposort_ready data) data) = Inr rest"
      and l: "ls = toposort_ready data # rest"
      by (rule toposort_loop_step)
    have "set (concat rest) = set (map fst (toposort_remove (toposort_ready data) data))"
      using False r by (rule "1.IH")
    then have "set (concat rest) = set (map fst data) - set (toposort_ready data)"
      by (simp only: keyset_toposort_remove)
    moreover have "set (concat ls) = set (toposort_ready data) \<union> set (concat rest)"
      unfolding l by simp
    ultimately show ?thesis
      using toposort_ready_subset[of data] by blast
  qed
qed

lemma toposort_loop_distinct:
  "toposort_loop data = Inr ls \<Longrightarrow> distinct (map fst data) \<Longrightarrow> distinct (concat ls)"
proof (induction data arbitrary: ls rule: toposort_loop.induct)
  case (1 data)
  show ?case
  proof (cases "toposort_ready data = []")
    case True
    with "1.prems"(1) have "ls = []"
      by (rule toposort_loop_done)
    then show ?thesis by simp
  next
    case False
    with "1.prems"(1) obtain rest where
      r: "toposort_loop (toposort_remove (toposort_ready data) data) = Inr rest"
      and l: "ls = toposort_ready data # rest"
      by (rule toposort_loop_step)
    have d: "distinct (map fst (toposort_remove (toposort_ready data) data))"
      unfolding keys_toposort_remove using "1.prems"(2) by (rule distinct_filter)
    have "distinct (concat rest)"
      using False r d by (rule "1.IH")
    moreover have "set (concat rest) = set (map fst data) - set (toposort_ready data)"
      using toposort_loop_keys[OF r] by (simp only: keyset_toposort_remove)
    then have "set (toposort_ready data) \<inter> set (concat rest) = {}"
      by blast
    moreover have "distinct (toposort_ready data)"
      using "1.prems"(2) by (rule distinct_toposort_ready)
    moreover have "concat ls = toposort_ready data @ concat rest"
      unfolding l by simp
    ultimately show ?thesis
      by (simp only: distinct_append)
  qed
qed

text \<open>The round of an item: no dependency for round 0; otherwise every dependency is in an
  earlier round and one of them in the round just before.\<close>

lemma toposort_loop_round:
  assumes "toposort_loop data = Inr ls" and "distinct (map fst data)"
    and "(n, deps) \<in> set data" and "k < length ls" and "n \<in> set (ls ! k)"
  shows "(k = 0 \<and> deps = []) \<or>
         (0 < k \<and> set deps \<subseteq> set (concat (take k ls)) \<and> set deps \<inter> set (ls ! (k - 1)) \<noteq> {})"
  using assms
proof (induction data arbitrary: ls deps k rule: toposort_loop.induct)
  case (1 data)
  show ?case
  proof (cases "toposort_ready data = []")
    case True
    with "1.prems"(1) have "ls = []"
      by (rule toposort_loop_done)
    with "1.prems"(4) show ?thesis by simp
  next
    case False
    let ?ready = "toposort_ready data"
    from "1.prems"(1) False obtain rest where
      r: "toposort_loop (toposort_remove ?ready data) = Inr rest"
      and l: "ls = ?ready # rest"
      by (rule toposort_loop_step)
    have d: "distinct (map fst (toposort_remove ?ready data))"
      unfolding keys_toposort_remove using "1.prems"(2) by (rule distinct_filter)
    have "set (concat rest) = set (map fst data) - set ?ready"
      using toposort_loop_keys[OF r] by (simp only: keyset_toposort_remove)
    then have disj: "set (concat rest) \<inter> set ?ready = {}"
      by blast
    show ?thesis
    proof (cases k)
      case 0
      with "1.prems"(5) l have "(n, []) \<in> set data"
        by (simp add: set_toposort_ready)
      with "1.prems"(2,3) have "deps = []"
        by (meson eq_key_imp_eq_value)
      with 0 show ?thesis by simp
    next
      case (Suc k')
      with "1.prems"(4,5) l have k': "k' < length rest" "n \<in> set (rest ! k')"
        by simp_all
      then have "n \<in> set (concat rest)"
        by (auto simp: in_set_conv_nth intro!: bexI[of _ "rest ! k'"])
      with disj have nr: "n \<notin> set ?ready" by auto
      then have ne: "deps \<noteq> []"
        using "1.prems"(3) by (auto simp: set_toposort_ready)
      let ?deps' = "filter (\<lambda>e. e \<notin> set ?ready) deps"
      have m: "(n, ?deps') \<in> set (toposort_remove ?ready data)"
        using "1.prems"(3) nr by (force simp: toposort_remove_def)
      from "1.IH"[OF False r d m k']
      consider "k' = 0" "?deps' = []"
        | "0 < k'" "set ?deps' \<subseteq> set (concat (take k' rest))" "set ?deps' \<inter> set (rest ! (k' - 1)) \<noteq> {}"
        by blast
      then show ?thesis
      proof cases
        case 1
        then have "set deps \<subseteq> set ?ready"
          by (auto simp: filter_empty_conv)
        moreover from this ne have "set deps \<inter> set ?ready \<noteq> {}"
          by (cases deps) auto
        ultimately show ?thesis
          using Suc 1 l by simp
      next
        case 2
        have "set deps \<subseteq> set ?ready \<union> set ?deps'" by auto
        with 2(2) have "set deps \<subseteq> set (concat (take k ls))"
          using Suc l by auto
        moreover from 2(1,3) have "set deps \<inter> set (ls ! (k - 1)) \<noteq> {}"
          using Suc l by (cases k') auto
        ultimately show ?thesis using Suc by simp
      qed
    qed
  qed
qed

lemma toposort_loop_first:
  assumes "toposort_loop data = Inr ls" and "(x, []) \<in> set data"
  shows "ls \<noteq> [] \<and> x \<in> set (ls ! 0)"
proof -
  from assms(2) have x: "x \<in> set (toposort_ready data)"
    by (simp add: set_toposort_ready)
  then have "toposort_ready data \<noteq> []" by auto
  with assms(1) obtain rest where "ls = toposort_ready data # rest"
    by (rule toposort_loop_step)
  with x show ?thesis by simp
qed

lemma toposort_prepare_alt:
  "toposort_prepare data =
     map (\<lambda>(item, dep). (item, prepared_deps item dep)) data @ map (\<lambda>item. (item, [])) (extra_items data)"
proof -
  have k: "map fst (map (\<lambda>(item, dep). (item, prepared_deps item dep)) data) = map fst data"
    by (induction data) auto
  have s: "map snd (map (\<lambda>(item, dep). (item, prepared_deps item dep)) data) =
      map (\<lambda>(item, dep). prepared_deps item dep) data"
    by (induction data) auto
  show ?thesis
    unfolding toposort_prepare_def Let_def prepared_deps_def[symmetric] k s extra_items_def ..
qed

lemma set_prepared_deps: "set (prepared_deps item dep) = set dep - {item}"
  by (auto simp: prepared_deps_def)

lemma set_extra_items:
  "set (extra_items data) = (\<Union>(n, deps) \<in> set data. set deps) - set (map fst data)"
proof (rule set_eqI)
  fix x
  have c: "x \<in> set (concat (map (\<lambda>(item, dep). prepared_deps item dep) data)) \<longleftrightarrow>
      (\<exists>n deps. (n, deps) \<in> set data \<and> x \<in> set deps \<and> x \<noteq> n)"
    by (induction data) (auto simp: set_prepared_deps)
  have "x \<in> set (extra_items data) \<longleftrightarrow>
      x \<notin> set (map fst data) \<and> (\<exists>n deps. (n, deps) \<in> set data \<and> x \<in> set deps \<and> x \<noteq> n)"
    unfolding extra_items_def set_filter set_remdups using c by blast
  also have "\<dots> \<longleftrightarrow> x \<notin> set (map fst data) \<and> (\<exists>n deps. (n, deps) \<in> set data \<and> x \<in> set deps)"
    by force
  also have "\<dots> \<longleftrightarrow> x \<in> (\<Union>(n, deps) \<in> set data. set deps) - set (map fst data)"
    by blast
  finally show "x \<in> set (extra_items data) \<longleftrightarrow>
      x \<in> (\<Union>(n, deps) \<in> set data. set deps) - set (map fst data)" .
qed

lemma distinct_extra_items: "distinct (extra_items data)"
  by (simp add: extra_items_def)

lemma keys_toposort_prepare:
  "map fst (toposort_prepare data) = map fst data @ extra_items data"
proof -
  have "map fst (map (\<lambda>(item, dep). (item, prepared_deps item dep)) data) = map fst data"
    by (induction data) auto
  moreover have "map fst (map (\<lambda>item. (item, [])) (extra_items data)) = extra_items data"
    by (induction "extra_items data") (simp_all add: comp_def)
  ultimately show ?thesis
    unfolding toposort_prepare_alt by simp
qed

lemma distinct_keys_toposort_prepare:
  "distinct (map fst data) \<Longrightarrow> distinct (map fst (toposort_prepare data))"
  unfolding keys_toposort_prepare
  using distinct_extra_items[of data] set_extra_items[of data] by auto

lemma keyset_toposort_prepare:
  "set (map fst (toposort_prepare data)) = set (map fst data) \<union> (\<Union>(n, deps) \<in> set data. set deps)"
proof -
  have "(\<Union>(n, deps) \<in> set data. set deps) - set (map fst data) \<union> set (map fst data) =
      set (map fst data) \<union> (\<Union>(n, deps) \<in> set data. set deps)"
    by blast
  then show ?thesis
    unfolding keys_toposort_prepare set_append set_extra_items by blast
qed

lemma toposort_prepare_entry:
  "(n, deps) \<in> set data \<Longrightarrow> (n, prepared_deps n deps) \<in> set (toposort_prepare data)"
  unfolding toposort_prepare_alt by force

lemma toposort_prepare_extra:
  "x \<in> set (map fst (toposort_prepare data)) \<Longrightarrow> x \<notin> set (map fst data) \<Longrightarrow>
     (x, []) \<in> set (toposort_prepare data)"
proof -
  assume "x \<in> set (map fst (toposort_prepare data))" and "x \<notin> set (map fst data)"
  then have "x \<in> set (extra_items data)"
    unfolding keys_toposort_prepare by simp
  then show ?thesis
    unfolding toposort_prepare_alt by force
qed

lemma deps_closedI:
  assumes "\<And>n deps d. (n, deps) \<in> set data \<Longrightarrow> d \<in> set deps \<Longrightarrow> d \<in> set (map fst data)"
  shows "deps_closed data"
  unfolding deps_closed_def using assms by blast

lemma deps_closedD:
  assumes "deps_closed data" and "(n, deps) \<in> set data" and "d \<in> set deps"
  shows "d \<in> set (map fst data)"
  using assms unfolding deps_closed_def by blast

lemma finite_dep_edges: "finite (dep_edges data)"
proof -
  have "dep_edges data \<subseteq> (\<Union>(n, deps) \<in> set data. set deps) \<times> set (map fst data)"
    by (force simp: dep_edges_def)
  moreover have "finite ((\<Union>(n, deps) \<in> set data. set deps) \<times> set (map fst data))"
    by auto
  ultimately show ?thesis
    by (rule finite_subset)
qed

lemma acyclic_ready:
  assumes "data \<noteq> []" and "deps_closed data" and "acyclic (dep_edges data)"
  shows "toposort_ready data \<noteq> []"
proof -
  from finite_dep_edges assms(3) have "wf (dep_edges data)"
    by (rule finite_acyclic_wf)
  moreover from assms(1) obtain k where "k \<in> set (map fst data)"
    by (cases data) auto
  ultimately obtain z where z: "z \<in> set (map fst data)"
    and m: "\<And>y. (y, z) \<in> dep_edges data \<Longrightarrow> y \<notin> set (map fst data)"
    by (rule wfE_min) blast
  from z obtain deps where e: "(z, deps) \<in> set data" by auto
  have "d \<notin> set deps" for d
  proof
    assume d: "d \<in> set deps"
    with e have "(d, z) \<in> dep_edges data"
      by (auto simp: dep_edges_def)
    then have "d \<notin> set (map fst data)" by (rule m)
    moreover from assms(2) e d have "d \<in> set (map fst data)"
      by (rule deps_closedD)
    ultimately show False by simp
  qed
  then have "deps = []"
    by (cases deps) auto
  with e have "(z, []) \<in> set data" by simp
  then have "z \<in> set (toposort_ready data)"
    unfolding set_toposort_ready by simp
  then show ?thesis by auto
qed

lemma deps_closed_remove:
  assumes "deps_closed data"
  shows "deps_closed (toposort_remove ordered data)"
proof (rule deps_closedI)
  fix n deps d
  assume "(n, deps) \<in> set (toposort_remove ordered data)" and d: "d \<in> set deps"
  then obtain deps0 where e: "(n, deps0) \<in> set data" and f: "deps = filter (\<lambda>e. e \<notin> set ordered) deps0"
    by (auto simp: toposort_remove_def)
  from d f have d0: "d \<in> set deps0" and no: "d \<notin> set ordered" by simp_all
  from assms e d0 have "d \<in> set (map fst data)"
    by (rule deps_closedD)
  with no show "d \<in> set (map fst (toposort_remove ordered data))"
    unfolding keyset_toposort_remove by simp
qed

lemma dep_edges_remove: "dep_edges (toposort_remove ordered data) \<subseteq> dep_edges data"
  by (auto simp: dep_edges_def toposort_remove_def)

lemma toposort_loop_returns:
  assumes "deps_closed data" and "acyclic (dep_edges data)"
  shows "\<exists>ls. toposort_loop data = Inr ls"
  using assms
proof (induction data rule: toposort_loop.induct)
  case (1 data)
  show ?case
  proof (cases "toposort_ready data = []")
    case True
    with acyclic_ready[OF _ "1.prems"] have "data = []" by blast
    with True show ?thesis
      by (subst toposort_loop.simps) simp
  next
    case False
    have "deps_closed (toposort_remove (toposort_ready data) data)"
      using "1.prems"(1) by (rule deps_closed_remove)
    moreover have "acyclic (dep_edges (toposort_remove (toposort_ready data) data))"
      using "1.prems"(2) dep_edges_remove by (rule acyclic_subset)
    ultimately obtain rest where "toposort_loop (toposort_remove (toposort_ready data) data) = Inr rest"
      using "1.IH"[OF False] by blast
    with False show ?thesis
      by (subst toposort_loop.simps) simp
  qed
qed

lemma deps_closed_prepare: "deps_closed (toposort_prepare data)"
proof (rule deps_closedI)
  fix n deps d
  assume "(n, deps) \<in> set (toposort_prepare data)" and d: "d \<in> set deps"
  then obtain deps0 where "(n, deps0) \<in> set data" and "deps = prepared_deps n deps0"
    unfolding toposort_prepare_alt by auto
  with d have "(n, deps0) \<in> set data" and "d \<in> set deps0"
    by (simp_all add: set_prepared_deps)
  then have "d \<in> (\<Union>(n, deps) \<in> set data. set deps)"
    by blast
  then show "d \<in> set (map fst (toposort_prepare data))"
    unfolding keyset_toposort_prepare by (rule UnI2)
qed

lemma dep_edges_prepare:
  "dep_edges (toposort_prepare data) = {(d, n). \<exists>deps. (n, deps) \<in> set data \<and> d \<in> set deps \<and> d \<noteq> n}"
proof -
  have "(d, n) \<in> dep_edges (toposort_prepare data) \<longleftrightarrow>
      (\<exists>deps. (n, deps) \<in> set data \<and> d \<in> set deps \<and> d \<noteq> n)" for d n
  proof
    assume "(d, n) \<in> dep_edges (toposort_prepare data)"
    then obtain deps where "(n, deps) \<in> set (toposort_prepare data)" and d: "d \<in> set deps"
      by (auto simp: dep_edges_def)
    then obtain deps0 where "(n, deps0) \<in> set data" and "deps = prepared_deps n deps0"
      unfolding toposort_prepare_alt by auto
    with d show "\<exists>deps. (n, deps) \<in> set data \<and> d \<in> set deps \<and> d \<noteq> n"
      by (auto simp: set_prepared_deps)
  next
    assume "\<exists>deps. (n, deps) \<in> set data \<and> d \<in> set deps \<and> d \<noteq> n"
    then obtain deps where e: "(n, deps) \<in> set data" and d: "d \<in> set deps" "d \<noteq> n" by blast
    from e have "(n, prepared_deps n deps) \<in> set (toposort_prepare data)"
      by (rule toposort_prepare_entry)
    moreover from d have "d \<in> set (prepared_deps n deps)"
      by (simp add: set_prepared_deps)
    ultimately show "(d, n) \<in> dep_edges (toposort_prepare data)"
      by (auto simp: dep_edges_def)
  qed
  then show ?thesis by auto
qed

lemma toposort_flatten_returns:
  assumes "acyclic {(d, n). \<exists>deps. (n, deps) \<in> set data \<and> d \<in> set deps \<and> d \<noteq> n}"
  shows "\<exists>order. toposort_flatten data = Inr order"
proof -
  from assms have "acyclic (dep_edges (toposort_prepare data))"
    unfolding dep_edges_prepare .
  with deps_closed_prepare obtain ls where "toposort_loop (toposort_prepare data) = Inr ls"
    using toposort_loop_returns by blast
  then show ?thesis
    by (simp add: toposort_flatten_def toposort_def)
qed

lemma toposort_flatten_Inl: "toposort_flatten data = Inl e \<Longrightarrow> e = CircularDependencyError"
  by (auto simp: toposort_flatten_def toposort_def split: sum.splits if_splits dest: toposort_loop_Inl)

lemma toposort_flatten_rounds:
  assumes "toposort_flatten data = Inr order" and "distinct (map fst data)"
  shows "\<exists>ls. toposort data = Inr ls \<and> order = concat (map sort ls) \<and> distinct (concat ls) \<and>
     set (concat ls) = set (map fst data) \<union> (\<Union>(n, deps) \<in> set data. set deps) \<and>
     (\<forall>n deps k. (n, deps) \<in> set data \<longrightarrow> k < length ls \<longrightarrow> n \<in> set (ls ! k) \<longrightarrow>
           (k = 0 \<and> set deps - {n} = {}) \<or>
           (0 < k \<and> set deps - {n} \<subseteq> set (concat (take k ls)) \<and>
            (set deps - {n}) \<inter> set (ls ! (k - 1)) \<noteq> {})) \<and>
     (\<forall>x. x \<in> set (concat ls) \<longrightarrow> x \<notin> set (map fst data) \<longrightarrow> ls \<noteq> [] \<and> x \<in> set (ls ! 0))"
proof (cases "data = []")
  case True
  with assms(1) have o: "order = concat (map sort [])"
    by (simp add: toposort_flatten_def toposort_def)
  have t: "toposort data = Inr []"
    using True by (simp add: toposort_def)
  from t o True show ?thesis
    by (intro exI[of _ "[]"]) simp
next
  case False
  with assms(1) obtain ls where l: "toposort_loop (toposort_prepare data) = Inr ls"
    and o: "order = concat (map sort ls)"
    by (auto simp: toposort_flatten_def toposort_def split: sum.splits)
  have d: "distinct (map fst (toposort_prepare data))"
    using assms(2) by (rule distinct_keys_toposort_prepare)
  have t: "toposort data = Inr ls"
    using False l by (simp add: toposort_def)
  have d1: "distinct (concat ls)"
    using l d by (rule toposort_loop_distinct)
  have s1: "set (concat ls) = set (map fst data) \<union> (\<Union>(n, deps) \<in> set data. set deps)"
    using toposort_loop_keys[OF l] by (simp only: keyset_toposort_prepare)
  have r1: "(k = 0 \<and> set deps - {n} = {}) \<or>
           (0 < k \<and> set deps - {n} \<subseteq> set (concat (take k ls)) \<and>
            (set deps - {n}) \<inter> set (ls ! (k - 1)) \<noteq> {})"
    if "(n, deps) \<in> set data" and k: "k < length ls" "n \<in> set (ls ! k)" for n deps k
  proof -
    from that(1) have "(n, prepared_deps n deps) \<in> set (toposort_prepare data)"
      by (rule toposort_prepare_entry)
    from toposort_loop_round[OF l d this k] show ?thesis
      unfolding set_prepared_deps[symmetric] by simp
  qed
  have e1: "ls \<noteq> [] \<and> x \<in> set (ls ! 0)"
    if "x \<in> set (concat ls)" and "x \<notin> set (map fst data)" for x
  proof -
    from that(1) have "x \<in> set (map fst (toposort_prepare data))"
      unfolding toposort_loop_keys[OF l] .
    with that(2) have "(x, []) \<in> set (toposort_prepare data)"
      by (intro toposort_prepare_extra)
    with l show ?thesis
      by (rule toposort_loop_first)
  qed
  from t o d1 s1 r1 e1 show ?thesis
    by blast
qed

subsection \<open>Grouped topological sorter\<close>

lemma keys_setitem:
  "map fst (setitem k v d) = (if k \<in> set (map fst d) then map fst d else map fst d @ [k])"
  by (induction d) force+

lemma setitem_new: "k \<notin> set (map fst d) \<Longrightarrow> setitem k v d = d @ [(k, v)]"
  by (induction d) auto

lemma setitem_same: "map_of d k = Some v \<Longrightarrow> setitem k v d = d"
  by (induction d) (auto split: if_splits)

lemma getitem_Inr: "getitem d k = Inr v \<longleftrightarrow> map_of d k = Some v"
  by (simp add: getitem_def split: option.splits)

lemma getitem_Inl: "getitem d k = Inl e \<longleftrightarrow> map_of d k = None \<and> e = KeyError k"
  by (auto simp: getitem_def split: option.splits)

lemma map_of_in_keys: "map_of d k = Some v \<Longrightarrow> k \<in> set (map fst d)"
  by (metis map_of_SomeD set_map image_eqI fst_conv)

lemma in_keys_map_of: "k \<in> set (map fst d) \<Longrightarrow> \<exists>v. map_of d k = Some v"
  by (metis map_of_eq_None_iff not_Some_eq set_map)

lemma copy_classes_keys:
  "copy_classes cs order ret = Inr ret' \<Longrightarrow> set order \<subseteq> set (map fst cs)"
proof (induction order arbitrary: ret)
  case Nil
  then show ?case by simp
next
  case (Cons n order)
  from Cons.prems obtain c where c: "getitem cs n = Inr c"
    and r: "copy_classes cs order (setitem n c ret) = Inr ret'"
    by (auto split: sum.splits)
  from c have "n \<in> set (map fst cs)"
    unfolding getitem_Inr by (rule map_of_in_keys)
  moreover from r have "set order \<subseteq> set (map fst cs)"
    by (rule Cons.IH)
  ultimately show ?case by simp
qed

lemma copy_classes_result:
  assumes "distinct (map fst cs)" and "set order \<subseteq> set (map fst cs)" and "distinct order"
    and "set ret \<subseteq> set cs"
  shows "copy_classes cs order ret =
     Inr (ret @ map (\<lambda>n. (n, the (map_of cs n))) (filter (\<lambda>n. n \<notin> set (map fst ret)) order))"
  using assms(2-)
proof (induction order arbitrary: ret)
  case Nil
  then show ?case by simp
next
  case (Cons n order)
  from Cons.prems(1) obtain c where c: "map_of cs n = Some c"
    using in_keys_map_of[of n cs] by auto
  then have g: "getitem cs n = Inr c"
    by (simp add: getitem_Inr)
  from Cons.prems have o: "set order \<subseteq> set (map fst cs)" "distinct order" "n \<notin> set order"
    by simp_all
  show ?case
  proof (cases "n \<in> set (map fst ret)")
    case True
    then obtain c' where "(n, c') \<in> set ret" by auto
    with Cons.prems(3) have "(n, c') \<in> set cs" by auto
    with assms(1) c have "c' = c" by simp
    with \<open>(n, c') \<in> set ret\<close> have "map_of ret n = Some c"
      using Cons.prems(3) assms(1)
      by (metis (no_types, lifting) True c in_keys_map_of map_of_SomeD map_of_is_SomeI option.inject subsetD)
    then have s: "setitem n c ret = ret"
      by (rule setitem_same)
    have "copy_classes cs (n # order) ret = copy_classes cs order ret"
      using g s by simp
    also have "\<dots> = Inr (ret @ map (\<lambda>n. (n, the (map_of cs n))) (filter (\<lambda>n. n \<notin> set (map fst ret)) order))"
      using o(1,2) Cons.prems(3) by (rule Cons.IH)
    finally show ?thesis
      using True by simp
  next
    case False
    then have s: "setitem n c ret = ret @ [(n, c)]"
      by (rule setitem_new)
    have "(n, c) \<in> set cs"
      using c by (rule map_of_SomeD)
    with Cons.prems(3) have sub: "set (ret @ [(n, c)]) \<subseteq> set cs"
      by simp
    have f: "filter (\<lambda>x. x \<notin> set (map fst (ret @ [(n, c)]))) order =
        filter (\<lambda>x. x \<notin> set (map fst ret)) order"
      using o(3) by (intro filter_cong) auto
    have "copy_classes cs (n # order) ret = copy_classes cs order (ret @ [(n, c)])"
      using g s by simp
    also have "\<dots> = Inr ((ret @ [(n, c)]) @ map (\<lambda>n. (n, the (map_of cs n)))
        (filter (\<lambda>x. x \<notin> set (map fst (ret @ [(n, c)]))) order))"
      using o(1,2) sub by (rule Cons.IH)
    finally show ?thesis
      unfolding f using False c by simp
  qed
qed

lemma inheritance_of_keys:
  "inheritance_of cs ns acc = Inr inh \<Longrightarrow> set ns \<subseteq> set (map fst cs)"
proof (induction ns arbitrary: acc)
  case Nil
  then show ?case by simp
next
  case (Cons n ns)
  from Cons.prems obtain c where c: "getitem cs n = Inr c"
    and r: "inheritance_of cs ns (setitem n (bases c) acc) = Inr inh"
    by (auto split: sum.splits)
  from c have "n \<in> set (map fst cs)"
    unfolding getitem_Inr by (rule map_of_in_keys)
  moreover from r have "set ns \<subseteq> set (map fst cs)"
    by (rule Cons.IH)
  ultimately show ?case by simp
qed

lemma inheritance_of_result:
  assumes "set ns \<subseteq> set (map fst cs)" and "distinct ns" and "set ns \<inter> set (map fst acc) = {}"
  shows "inheritance_of cs ns acc = Inr (acc @ map (\<lambda>n. (n, bases (the (map_of cs n)))) ns)"
  using assms
proof (induction ns arbitrary: acc)
  case Nil
  then show ?case by simp
next
  case (Cons n ns)
  from Cons.prems(1) obtain c where c: "map_of cs n = Some c"
    using in_keys_map_of[of n cs] by auto
  then have g: "getitem cs n = Inr c"
    by (simp add: getitem_Inr)
  from Cons.prems(3) have "n \<notin> set (map fst acc)" by auto
  then have s: "setitem n (bases c) acc = acc @ [(n, bases c)]"
    by (rule setitem_new)
  have "set ns \<inter> set (map fst (acc @ [(n, bases c)])) = {}"
    using Cons.prems(2,3) by auto
  with Cons.prems(1,2)
  have "inheritance_of cs ns (acc @ [(n, bases c)]) =
      Inr ((acc @ [(n, bases c)]) @ map (\<lambda>n. (n, bases (the (map_of cs n)))) ns)"
    by (intro Cons.IH) simp_all
  then show ?case
    using g s c by simp
qed

lemma keys_setdefault_append:
  "map fst (setdefault_append k x d) = (if k \<in> set (map fst d) then map fst d else map fst d @ [k])"
  by (induction d) force+

lemma dict_get_setdefault_append:
  "dict_get (setdefault_append k x d) g = (if g = k then dict_get d k @ [x] else dict_get d g)"
  by (induction d) (auto simp: dict_get_def)

lemma distinct_keys_setdefault_append:
  "distinct (map fst d) \<Longrightarrow> distinct (map fst (setdefault_append k x d))"
  by (simp add: keys_setdefault_append)

lemma names_of_group_Cons:
  "names_of_group ((n, c) # cs) g = (if group c = g then n # names_of_group cs g else names_of_group cs g)"
  by (simp add: names_of_group_def)

lemma group_names_get:
  "dict_get (group_names cs acc) g = dict_get acc g @ names_of_group cs g"
proof (induction cs arbitrary: acc)
  case Nil
  then show ?case by (simp add: names_of_group_def)
next
  case (Cons p cs)
  obtain n c where p: "p = (n, c)" by (cases p)
  show ?case
    unfolding p group_names.simps Cons.IH dict_get_setdefault_append names_of_group_Cons
    by simp
qed

lemma group_names_keys:
  "set (map fst (group_names cs acc)) = set (map fst acc) \<union> (\<lambda>(n, c). group c) ` set cs"
proof (induction cs arbitrary: acc)
  case Nil
  then show ?case by simp
next
  case (Cons p cs)
  obtain n c where p: "p = (n, c)" by (cases p)
  have "set (map fst (setdefault_append (group c) n acc)) = insert (group c) (set (map fst acc))"
    unfolding keys_setdefault_append by auto
  then show ?case
    unfolding p group_names.simps Cons.IH by auto
qed

lemma group_names_distinct:
  "distinct (map fst acc) \<Longrightarrow> distinct (map fst (group_names cs acc))"
proof (induction cs arbitrary: acc)
  case Nil
  then show ?case by simp
next
  case (Cons p cs)
  obtain n c where p: "p = (n, c)" by (cases p)
  show ?case
    unfolding p group_names.simps
    using Cons.prems by (intro Cons.IH distinct_keys_setdefault_append)
qed

lemma sorted_groups_sorted: "sorted (map fst (sorted_groups cs))"
  by (simp add: sorted_groups_def)

lemma sorted_groups_distinct: "distinct (map fst (sorted_groups cs))"
proof -
  have "distinct (map fst (group_names cs []))"
    by (rule group_names_distinct) simp
  then show ?thesis
    unfolding sorted_groups_def by (simp add: distinct_map)
qed

lemma sorted_groups_entry:
  assumes "(g, ns) \<in> set (sorted_groups cs)"
  shows "ns = names_of_group cs g"
proof -
  have d: "distinct (map fst (group_names cs []))"
    by (rule group_names_distinct) simp
  from assms have "(g, ns) \<in> set (group_names cs [])"
    by (simp add: sorted_groups_def)
  with d have "map_of (group_names cs []) g = Some ns"
    by simp
  then have "dict_get (group_names cs []) g = ns"
    by (simp add: dict_get_def)
  then show ?thesis
    unfolding group_names_get by (simp add: dict_get_def)
qed

lemma sorted_groups_keys: "set (map fst (sorted_groups cs)) = (\<lambda>(n, c). group c) ` set cs"
proof -
  have "set (map fst (sorted_groups cs)) = set (map fst (group_names cs []))"
    by (simp add: sorted_groups_def)
  then show ?thesis
    unfolding group_names_keys by simp
qed

lemma toposort_classes_by_group_alt:
  "toposort_classes_by_group cs = sort_groups cs (sorted_groups cs) []"
  by (simp add: toposort_classes_by_group_def sorted_groups_def)

lemma set_names_of_group: "set (names_of_group cs g) = {n. \<exists>c. (n, c) \<in> set cs \<and> group c = g}"
  by (force simp: names_of_group_def)

lemma distinct_names_of_group: "distinct (map fst cs) \<Longrightarrow> distinct (names_of_group cs g)"
  unfolding names_of_group_def by (rule distinct_map_filter)

lemma names_of_group_subset: "set (names_of_group cs g) \<subseteq> set (map fst cs)"
  by (force simp: names_of_group_def)

lemma set_concat_map_sort: "set (concat (map sort ls)) = set (concat ls)"
  by (induction ls) auto

lemma distinct_concat_map_sort: "distinct (concat ls) \<Longrightarrow> distinct (concat (map sort ls))"
proof (induction ls)
  case Nil
  then show ?case by simp
next
  case (Cons l ls)
  then have "distinct l" "distinct (concat ls)" "set l \<inter> set (concat ls) = {}"
    by auto
  with Cons.IH show ?case
    unfolding list.map concat.simps distinct_append set_concat_map_sort
    by (simp del: set_concat)
qed

lemma toposort_flatten_items:
  assumes "toposort_flatten data = Inr order" and "distinct (map fst data)"
  shows "distinct order" and "set order = set (map fst data) \<union> (\<Union>(n, deps) \<in> set data. set deps)"
proof -
  from toposort_flatten_rounds[OF assms] obtain ls where ls: "order = concat (map sort ls)" "distinct (concat ls)"
    "set (concat ls) = set (map fst data) \<union> (\<Union>(n, deps) \<in> set data. set deps)"
    by blast
  show "distinct order"
    unfolding ls(1) using ls(2) by (rule distinct_concat_map_sort)
  show "set order = set (map fst data) \<union> (\<Union>(n, deps) \<in> set data. set deps)"
    unfolding ls(1) set_concat_map_sort ls(3) ..
qed

lemma keys_inheritance: "map fst (inheritance cs ns) = ns"
  by (induction ns) (simp_all add: inheritance_def)

lemma inheritance_of_group:
  assumes "distinct (map fst cs)"
  shows "inheritance_of cs (names_of_group cs g) [] = Inr (inheritance cs (names_of_group cs g))"
proof -
  have "inheritance_of cs (names_of_group cs g) [] =
      Inr ([] @ map (\<lambda>n. (n, bases (the (map_of cs n)))) (names_of_group cs g))"
    using names_of_group_subset distinct_names_of_group[OF assms]
    by (rule inheritance_of_result) simp
  then show ?thesis
    by (simp add: inheritance_def)
qed

lemma inheritance_deps:
  assumes "distinct (map fst cs)" and "set ns \<subseteq> set (map fst cs)"
  shows "(\<Union>(n, deps) \<in> set (inheritance cs ns). set deps) =
     {b. \<exists>n c. n \<in> set ns \<and> (n, c) \<in> set cs \<and> b \<in> set (bases c)}"
proof (rule set_eqI)
  fix b
  have "b \<in> (\<Union>(n, deps) \<in> set (inheritance cs ns). set deps) \<longleftrightarrow>
      (\<exists>n \<in> set ns. b \<in> set (bases (the (map_of cs n))))"
    by (auto simp: inheritance_def)
  also have "\<dots> \<longleftrightarrow> (\<exists>n c. n \<in> set ns \<and> (n, c) \<in> set cs \<and> b \<in> set (bases c))"
  proof
    assume "\<exists>n \<in> set ns. b \<in> set (bases (the (map_of cs n)))"
    then obtain n where n: "n \<in> set ns" "b \<in> set (bases (the (map_of cs n)))" by blast
    with assms(2) obtain c where "map_of cs n = Some c"
      using in_keys_map_of[of n cs] by auto
    with n have "(n, c) \<in> set cs" "b \<in> set (bases c)"
      by (simp_all add: map_of_SomeD)
    with n(1) show "\<exists>n c. n \<in> set ns \<and> (n, c) \<in> set cs \<and> b \<in> set (bases c)" by blast
  next
    assume "\<exists>n c. n \<in> set ns \<and> (n, c) \<in> set cs \<and> b \<in> set (bases c)"
    then obtain n c where n: "n \<in> set ns" "(n, c) \<in> set cs" "b \<in> set (bases c)" by blast
    with assms(1) have "map_of cs n = Some c" by simp
    with n(3) have "b \<in> set (bases (the (map_of cs n)))" by simp
    with n(1) show "\<exists>n \<in> set ns. b \<in> set (bases (the (map_of cs n)))" by (rule rev_bexI)
  qed
  finally show "b \<in> (\<Union>(n, deps) \<in> set (inheritance cs ns). set deps) \<longleftrightarrow>
      b \<in> {b. \<exists>n c. n \<in> set ns \<and> (n, c) \<in> set cs \<and> b \<in> set (bases c)}"
    by simp
qed

lemma copied_subset:
  assumes "set order \<subseteq> set (map fst cs)" and "set ret \<subseteq> set cs"
  shows "set (ret @ map (\<lambda>n. (n, the (map_of cs n))) (filter P order)) \<subseteq> set cs"
proof -
  have "(n, the (map_of cs n)) \<in> set cs" if "n \<in> set order" for n
  proof -
    from that assms(1) obtain c where "map_of cs n = Some c"
      using in_keys_map_of[of n cs] by auto
    then show ?thesis by (simp add: map_of_SomeD)
  qed
  with assms(2) show ?thesis by auto
qed

lemma sort_groups_closed:
  assumes "distinct (map fst cs)"
    and "\<forall>(n, c) \<in> set cs. set (bases c) \<subseteq> set (map fst cs)"
    and "\<forall>(g, ns) \<in> set gs. ns = names_of_group cs g"
    and "set ret \<subseteq> set cs" and "distinct (map fst ret)"
  shows "sort_groups cs gs ret = Inl CircularDependencyError \<or>
     (\<exists>final. sort_groups cs gs ret = Inr final \<and> set final \<subseteq> set cs \<and> distinct (map fst final) \<and>
        set (map fst ret) \<union> (\<Union>(g, ns) \<in> set gs. set ns) \<subseteq> set (map fst final))"
  using assms(3,4,5)
proof (induction gs arbitrary: ret)
  case Nil
  then show ?case by auto
next
  case (Cons p gs)
  obtain g ns where p: "p = (g, ns)" by (cases p)
  with Cons.prems(1) have ns: "ns = names_of_group cs g" by simp
  have inh: "inheritance_of cs ns [] = Inr (inheritance cs ns)"
    unfolding ns using assms(1) by (rule inheritance_of_group)
  have sub: "set ns \<subseteq> set (map fst cs)"
    unfolding ns by (rule names_of_group_subset)
  show ?case
  proof (cases "toposort_flatten (inheritance cs ns)")
    case (Inl e)
    then have "e = CircularDependencyError"
      by (rule toposort_flatten_Inl)
    with Inl inh show ?thesis
      unfolding p by simp
  next
    case (Inr order)
    have dk: "distinct (map fst (inheritance cs ns))"
      unfolding keys_inheritance ns using assms(1) by (rule distinct_names_of_group)
    from toposort_flatten_items[OF Inr dk]
    have o: "distinct order"
      "set order = set ns \<union> {b. \<exists>n c. n \<in> set ns \<and> (n, c) \<in> set cs \<and> b \<in> set (bases c)}"
      unfolding keys_inheritance inheritance_deps[OF assms(1) sub] by simp_all
    have os: "set order \<subseteq> set (map fst cs)"
      unfolding o(2) using sub assms(2) by auto
    let ?ret' = "ret @ map (\<lambda>n. (n, the (map_of cs n))) (filter (\<lambda>n. n \<notin> set (map fst ret)) order)"
    have c: "copy_classes cs order ret = Inr ?ret'"
      using assms(1) os o(1) Cons.prems(2) by (rule copy_classes_result)
    have r': "set ?ret' \<subseteq> set cs"
      using os Cons.prems(2) by (rule copied_subset)
    have k': "set (map fst ret) \<union> set ns \<subseteq> set (map fst ?ret')"
      using o(2) by auto
    have "map fst ?ret' = map fst ret @ filter (\<lambda>n. n \<notin> set (map fst ret)) order"
      by (simp add: comp_def)
    then have d': "distinct (map fst ?ret')"
      using Cons.prems(3) o(1) by auto
    have step: "sort_groups cs (p # gs) ret = sort_groups cs gs ?ret'"
      unfolding p using inh Inr c by simp
    from Cons.prems(1) have "\<forall>(g, ns) \<in> set gs. ns = names_of_group cs g" by simp
    from Cons.IH[OF this r' d']
    show ?thesis
    proof
      assume "sort_groups cs gs ?ret' = Inl CircularDependencyError"
      with step show ?thesis by simp
    next
      assume "\<exists>final. sort_groups cs gs ?ret' = Inr final \<and> set final \<subseteq> set cs \<and> distinct (map fst final) \<and>
        set (map fst ?ret') \<union> (\<Union>(g, ns) \<in> set gs. set ns) \<subseteq> set (map fst final)"
      then obtain final where f: "sort_groups cs gs ?ret' = Inr final" "set final \<subseteq> set cs"
        "set (map fst ?ret') \<union> (\<Union>(g, ns) \<in> set gs. set ns) \<subseteq> set (map fst final)"
        and fd: "distinct (map fst final)"
        by blast
      have a: "set (map fst ret) \<subseteq> set (map fst final)" and b: "set ns \<subseteq> set (map fst final)"
        using f(3) k' by blast+
      have c: "(\<Union>(g, ns) \<in> set gs. set ns) \<subseteq> set (map fst final)"
        using f(3) by blast
      have "(\<Union>(g, ns) \<in> set (p # gs). set ns) = set ns \<union> (\<Union>(g, ns) \<in> set gs. set ns)"
        unfolding p by simp
      with a b c have "set (map fst ret) \<union> (\<Union>(g, ns) \<in> set (p # gs). set ns) \<subseteq> set (map fst final)"
        by (simp only: Un_subset_iff)
      with f(1,2) fd step show ?thesis by simp
    qed
  qed
qed

lemma sort_groups_blocks:
  assumes dk: "distinct (map fst cs)" and below: "bases_below cs"
    and "sorted (map fst gs)" and "distinct (map fst gs)"
    and "\<forall>(g, ns) \<in> set gs. ns = names_of_group cs g"
    and "set ret \<subseteq> set cs"
    and "\<forall>(k, c) \<in> set ret. \<forall>g \<in> set (map fst gs). group c < g"
    and "\<forall>(k, c) \<in> set cs. group c \<in> set (map fst gs) \<or> (k, c) \<in> set ret"
    and "sort_groups cs gs ret = Inr out"
  shows "set out \<subseteq> set cs \<and>
     map fst out = map fst ret @ concat (map (\<lambda>(g, ns). group_order cs ns) gs) \<and>
     (\<forall>(g, ns) \<in> set gs. \<exists>order. toposort_flatten (inheritance cs ns) = Inr order)"
  using assms(3-)
proof (induction gs arbitrary: ret)
  case Nil
  then show ?case by simp
next
  case (Cons p gs)
  obtain g ns where p: "p = (g, ns)" by (cases p)
  with Cons.prems(3) have ns: "ns = names_of_group cs g" by simp
  have inh: "inheritance_of cs ns [] = Inr (inheritance cs ns)"
    unfolding ns using dk by (rule inheritance_of_group)
  have sub: "set ns \<subseteq> set (map fst cs)"
    unfolding ns by (rule names_of_group_subset)
  from Cons.prems(7) inh obtain order ret' where
    tf: "toposort_flatten (inheritance cs ns) = Inr order"
    and cp: "copy_classes cs order ret = Inr ret'"
    and rest: "sort_groups cs gs ret' = Inr out"
    unfolding p by (auto split: sum.splits)
  have dki: "distinct (map fst (inheritance cs ns))"
    unfolding keys_inheritance ns using dk by (rule distinct_names_of_group)
  from toposort_flatten_items[OF tf dki]
  have o: "distinct order"
    "set order = set ns \<union> {b. \<exists>n c. n \<in> set ns \<and> (n, c) \<in> set cs \<and> b \<in> set (bases c)}"
    unfolding keys_inheritance inheritance_deps[OF dk sub] by simp_all
  have os: "set order \<subseteq> set (map fst cs)"
    using cp by (rule copy_classes_keys)
  have g_least: "g < g'" if "g' \<in> set (map fst gs)" for g'
  proof -
    from Cons.prems(1) that have "g \<le> g'" unfolding p by auto
    moreover from Cons.prems(2) that have "g \<noteq> g'" unfolding p by auto
    ultimately show ?thesis by simp
  qed
  have new: "x \<notin> set (map fst ret)" if "x \<in> set ns" for x
  proof
    assume "x \<in> set (map fst ret)"
    then obtain c where c: "(x, c) \<in> set ret" by auto
    with Cons.prems(5) have "group c < g" unfolding p by auto
    moreover from c Cons.prems(4) have "(x, c) \<in> set cs" by auto
    moreover from that obtain c' where "(x, c') \<in> set cs" "group c' = g"
      unfolding ns set_names_of_group by blast
    ultimately show False
      using dk by (metis eq_key_imp_eq_value less_irrefl)
  qed
  have old: "x \<in> set (map fst ret)" if "x \<in> set order" "x \<notin> set ns" for x
  proof -
    from that o(2) obtain n c where n: "n \<in> set ns" "(n, c) \<in> set cs" "x \<in> set (bases c)"
      by blast
    from n(1) obtain c0 where "(n, c0) \<in> set cs" "group c0 = g"
      unfolding ns set_names_of_group by blast
    with n(2) dk have gc: "group c = g"
      by (metis eq_key_imp_eq_value)
    from that(1) os obtain cx where cx: "(x, cx) \<in> set cs" by auto
    with below n(2,3) have "group cx \<le> group c"
      unfolding bases_below_def by blast
    moreover have "group cx \<noteq> g"
      using cx that(2) unfolding ns set_names_of_group by blast
    ultimately have lt: "group cx < g" using gc by simp
    have "group cx \<notin> set (map fst (p # gs))"
    proof
      assume "group cx \<in> set (map fst (p # gs))"
      then have "group cx = g \<or> group cx \<in> set (map fst gs)" unfolding p by simp
      then show False
      proof
        assume "group cx = g"
        with lt show False by simp
      next
        assume "group cx \<in> set (map fst gs)"
        then have "g < group cx" by (rule g_least)
        with lt show False by simp
      qed
    qed
    with Cons.prems(6) cx have "(x, cx) \<in> set ret" by blast
    then show ?thesis by force
  qed
  have f: "filter (\<lambda>n. n \<notin> set (map fst ret)) order = filter (\<lambda>n. n \<in> set ns) order"
    using new old by (intro filter_cong) auto
  have "copy_classes cs order ret =
      Inr (ret @ map (\<lambda>n. (n, the (map_of cs n))) (filter (\<lambda>n. n \<notin> set (map fst ret)) order))"
    using dk os o(1) Cons.prems(4) by (rule copy_classes_result)
  with cp have ret': "ret' = ret @ map (\<lambda>n. (n, the (map_of cs n))) (filter (\<lambda>n. n \<in> set ns) order)"
    unfolding f by simp
  have go: "group_order cs ns = filter (\<lambda>n. n \<in> set ns) order"
    by (simp add: group_order_def tf)
  have keys': "map fst ret' = map fst ret @ group_order cs ns"
    unfolding ret' go by (simp add: comp_def)
  have sub': "set ret' \<subseteq> set cs"
    unfolding ret' using os Cons.prems(4) by (rule copied_subset)
  have "group c < g'" if kc: "(k, c) \<in> set ret'" and g'k: "g' \<in> set (map fst gs)" for k c g'
    proof (cases "(k, c) \<in> set ret")
      case True
      with Cons.prems(5) g'k show ?thesis by auto
    next
      case False
      with kc have "k \<in> set ns" unfolding ret' by auto
      then obtain c0 where "(k, c0) \<in> set cs" "group c0 = g"
        unfolding ns set_names_of_group by blast
      moreover from kc sub' have "(k, c) \<in> set cs" by auto
      ultimately have "group c = g"
        using dk by (metis eq_key_imp_eq_value)
      with g_least[OF g'k] show ?thesis by simp
    qed
  then have inv1: "\<forall>(k, c) \<in> set ret'. \<forall>g' \<in> set (map fst gs). group c < g'"
    by blast
  have "group c \<in> set (map fst gs)" if kc: "(k, c) \<in> set cs" and nr: "(k, c) \<notin> set ret'" for k c
  proof -
    from nr have "(k, c) \<notin> set ret" unfolding ret' by simp
    with Cons.prems(6) kc have "group c \<in> set (map fst (p # gs))" by blast
    moreover have "group c \<noteq> g"
    proof
      assume "group c = g"
      with kc have kn: "k \<in> set ns" unfolding ns set_names_of_group by blast
      then have "k \<in> set (filter (\<lambda>n. n \<in> set ns) order)" using o(2) by simp
      moreover from kc dk have "the (map_of cs k) = c" by simp
      ultimately have "(k, c) \<in> set ret'" unfolding ret' by force
      with nr show False by simp
    qed
    ultimately show "group c \<in> set (map fst gs)" unfolding p by simp
  qed
  then have inv2: "\<forall>(k, c) \<in> set cs. group c \<in> set (map fst gs) \<or> (k, c) \<in> set ret'"
    by blast
  from Cons.prems(1) have s': "sorted (map fst gs)" by simp
  from Cons.prems(2) have d': "distinct (map fst gs)" by simp
  from Cons.prems(3) have e': "\<forall>(g, ns) \<in> set gs. ns = names_of_group cs g" by simp
  from Cons.IH[OF s' d' e' sub' inv1 inv2 rest]
  have ih: "set out \<subseteq> set cs"
    "map fst out = map fst ret' @ concat (map (\<lambda>(g, ns). group_order cs ns) gs)"
    "\<forall>(g, ns) \<in> set gs. \<exists>order. toposort_flatten (inheritance cs ns) = Inr order"
    by simp_all
  from ih(2) have "map fst out = map fst ret @ concat (map (\<lambda>(g, ns). group_order cs ns) (p # gs))"
    unfolding keys' p by simp
  moreover from ih(3) tf have "\<forall>(g, ns) \<in> set (p # gs). \<exists>order. toposort_flatten (inheritance cs ns) = Inr order"
    unfolding p by simp
  ultimately show ?case using ih(1) by simp
qed

lemma before_appendI: "a \<in> set ys \<Longrightarrow> b \<in> set zs \<Longrightarrow> before (ys @ zs) a b"
  unfolding before_def by blast

lemma before_in_prefix: "before ys a b \<Longrightarrow> before (ys @ zs) a b"
proof -
  assume "before ys a b"
  then obtain u v where "ys = u @ v" "a \<in> set u" "b \<in> set v"
    unfolding before_def by blast
  then have "ys @ zs = u @ (v @ zs)" "a \<in> set u" "b \<in> set (v @ zs)" by simp_all
  then show ?thesis unfolding before_def by blast
qed

lemma before_in_suffix: "before zs a b \<Longrightarrow> before (ys @ zs) a b"
proof -
  assume "before zs a b"
  then obtain u v where "zs = u @ v" "a \<in> set u" "b \<in> set v"
    unfolding before_def by blast
  then have "ys @ zs = (ys @ u) @ v" "a \<in> set (ys @ u)" "b \<in> set v" by simp_all
  then show ?thesis unfolding before_def by blast
qed

lemma before_filter:
  assumes "before xs a b" and "P a" and "P b"
  shows "before (filter P xs) a b"
proof -
  from assms(1) obtain ys zs where "xs = ys @ zs" "a \<in> set ys" "b \<in> set zs"
    unfolding before_def by blast
  with assms(2,3) have "filter P xs = filter P ys @ filter P zs"
    "a \<in> set (filter P ys)" "b \<in> set (filter P zs)"
    by simp_all
  then show ?thesis unfolding before_def by blast
qed

lemma before_nth:
  assumes "i < j" and "j < length xs"
  shows "before xs (xs ! i) (xs ! j)"
proof -
  have "xs = take (Suc i) xs @ drop (Suc i) xs" by simp
  moreover have "xs ! i \<in> set (take (Suc i) xs)"
  proof -
    have "take (Suc i) xs ! i = xs ! i" by simp
    moreover have "i < length (take (Suc i) xs)"
      using assms by simp
    ultimately show ?thesis by (metis nth_mem)
  qed
  moreover have "xs ! j \<in> set (drop (Suc i) xs)"
  proof -
    have "drop (Suc i) xs ! (j - Suc i) = xs ! j"
      using assms by simp
    moreover have "j - Suc i < length (drop (Suc i) xs)"
      using assms by simp
    ultimately show ?thesis by (metis nth_mem)
  qed
  ultimately show ?thesis unfolding before_def by blast
qed

lemma before_distinct_asym:
  assumes "distinct xs" and "before xs a b"
  shows "\<not> before xs b a" and "a \<noteq> b"
proof -
  from assms(2) obtain ys zs where d: "xs = ys @ zs" "a \<in> set ys" "b \<in> set zs"
    unfolding before_def by blast
  with assms(1) have disj: "set ys \<inter> set zs = {}" "distinct ys" "distinct zs" by simp_all
  with d show "a \<noteq> b" by auto
  show "\<not> before xs b a"
  proof
    assume "before xs b a"
    then obtain u v where e: "xs = u @ v" "b \<in> set u" "a \<in> set v"
      unfolding before_def by blast
    from d(1) e(1) have "ys @ zs = u @ v" by simp
    then obtain w where "ys = u @ w \<and> w @ zs = v \<or> ys @ w = u \<and> zs = w @ v"
      unfolding append_eq_append_conv2 by blast
    then show False
    proof
      assume w: "ys = u @ w \<and> w @ zs = v"
      with e(2) have "b \<in> set ys" by simp
      with d(3) disj(1) show False by auto
    next
      assume w: "ys @ w = u \<and> zs = w @ v"
      with e(3) have "a \<in> set zs" by simp
      with d(2) disj(1) show False by auto
    qed
  qed
qed

lemma before_index:
  assumes "distinct xs" and "i < length xs" and "j < length xs" and "before xs (xs ! i) (xs ! j)"
  shows "i < j"
proof (rule ccontr)
  assume "\<not> i < j"
  then consider "i = j" | "j < i" by linarith
  then show False
  proof cases
    case 1
    with before_distinct_asym(2)[OF assms(1,4)] show False by simp
  next
    case 2
    then have "before xs (xs ! j) (xs ! i)"
      using assms(2) by (rule before_nth)
    with before_distinct_asym(1)[OF assms(1,4)] show False by simp
  qed
qed

lemma before_in_block:
  assumes "distinct (ps @ bl @ ss)" and "before (ps @ bl @ ss) a b" and "a \<in> set bl" and "b \<in> set bl"
  shows "before bl a b"
proof -
  from assms(3) obtain i where i: "i < length bl" "bl ! i = a" by (auto simp: in_set_conv_nth)
  from assms(4) obtain j where j: "j < length bl" "bl ! j = b" by (auto simp: in_set_conv_nth)
  let ?xs = "ps @ bl @ ss"
  have xi: "?xs ! (length ps + i) = a" and xj: "?xs ! (length ps + j) = b"
    using i j by (simp_all add: nth_append)
  have li: "length ps + i < length ?xs" and lj: "length ps + j < length ?xs"
    using i j by simp_all
  have "before ?xs (?xs ! (length ps + i)) (?xs ! (length ps + j))"
    unfolding xi xj by (rule assms(2))
  with assms(1) li lj have "length ps + i < length ps + j"
    by (rule before_index)
  then have "i < j" by simp
  then have "before bl (bl ! i) (bl ! j)" using j(1) by (rule before_nth)
  with i j show ?thesis by simp
qed

lemma before_sorted:
  assumes "sorted xs" and "distinct xs" and "before xs a b"
  shows "a < b"
proof -
  from assms(3) obtain ys zs where d: "xs = ys @ zs" "a \<in> set ys" "b \<in> set zs"
    unfolding before_def by blast
  with assms(1) have "a \<le> b" by (auto simp: sorted_append)
  moreover from assms(2,3) have "a \<noteq> b" by (rule before_distinct_asym)
  ultimately show ?thesis by simp
qed

lemma concat_split_nth:
  "r < length ls \<Longrightarrow> concat ls = concat (take r ls) @ ls ! r @ concat (drop (Suc r) ls)"
  by (subst id_take_nth_drop[of r ls]) simp_all

lemma concat_sort_split_nth:
  assumes "r < length ls"
  shows "concat (map sort ls) =
     concat (map sort (take r ls)) @ sort (ls ! r) @ concat (map sort (drop (Suc r) ls))"
proof -
  have "r < length (map sort ls)" using assms by simp
  from concat_split_nth[OF this] show ?thesis
    using assms by (simp add: take_map drop_map)
qed

lemma in_concat_take:
  assumes "r' < r" and "r < length ls" and "a \<in> set (ls ! r')"
  shows "a \<in> set (concat (take r ls))"
proof -
  have "ls ! r' \<in> set (take r ls)"
    using assms(1,2) by (metis in_set_conv_nth length_take less_trans min.absorb4 nth_take)
  with assms(3) show ?thesis by auto
qed

lemma round_index_eq:
  assumes "distinct (concat ls)" and "r < length ls" and "k \<in> set (ls ! r)"
  shows "round_index ls k = r"
proof -
  have d: "set (concat (take r ls)) \<inter> set (ls ! r) = {}"
    using assms(1) unfolding concat_split_nth[OF assms(2)] by auto
  have "takeWhile (\<lambda>l. k \<notin> set l) ls = take r ls"
  proof (rule takeWhile_eq_take_P_nth)
    fix i assume "i < r" "i < length ls"
    show "k \<notin> set (ls ! i)"
    proof
      assume "k \<in> set (ls ! i)"
      with \<open>i < r\<close> assms(2) have "k \<in> set (concat (take r ls))" by (rule in_concat_take)
      with d assms(3) show False by auto
    qed
  next
    show "\<not> k \<notin> set (ls ! r)" using assms(3) by simp
  qed
  then show ?thesis
    using assms(2) by (simp add: round_index_def)
qed

lemma in_concat_round:
  assumes "k \<in> set (concat ls)"
  obtains r where "r < length ls" and "k \<in> set (ls ! r)"
proof -
  from assms obtain l where "l \<in> set ls" "k \<in> set l" by auto
  then obtain r where "r < length ls" "ls ! r = l" by (auto simp: in_set_conv_nth)
  with \<open>k \<in> set l\<close> show ?thesis by (intro that[of r]) simp_all
qed

lemma rounds_before:
  assumes "ra < rb" and "rb < length ls" and "a \<in> set (ls ! ra)" and "b \<in> set (ls ! rb)"
  shows "before (concat (map sort ls)) a b"
proof -
  have "a \<in> set (concat (take rb ls))"
    using assms(1,2,3) by (rule in_concat_take)
  then have "a \<in> set (concat (map sort (take rb ls)))"
    by (simp only: set_concat_map_sort)
  moreover have "b \<in> set (sort (ls ! rb) @ concat (map sort (drop (Suc rb) ls)))"
    using assms(4) by simp
  ultimately show ?thesis
    unfolding concat_sort_split_nth[OF assms(2)] by (rule before_appendI)
qed

lemma before_rounds:
  assumes "distinct (concat ls)" and "ra < length ls" and "rb < length ls"
    and "a \<in> set (ls ! ra)" and "b \<in> set (ls ! rb)" and "before (concat (map sort ls)) a b"
  shows "ra < rb \<or> (ra = rb \<and> a < b)"
proof -
  have d: "distinct (concat (map sort ls))"
    using assms(1) by (rule distinct_concat_map_sort)
  consider "ra < rb" | "rb < ra" | "ra = rb" by linarith
  then show ?thesis
  proof cases
    case 1
    then show ?thesis by simp
  next
    case 2
    then have "before (concat (map sort ls)) b a"
      using assms(2,5,4) by (rule rounds_before)
    with before_distinct_asym(1)[OF d assms(6)] show ?thesis by simp
  next
    case 3
    let ?bl = "sort (ls ! ra)"
    have s: "concat (map sort ls) =
        concat (map sort (take ra ls)) @ ?bl @ concat (map sort (drop (Suc ra) ls))"
      using assms(2) by (rule concat_sort_split_nth)
    have "before ?bl a b"
    proof (rule before_in_block)
      show "distinct (concat (map sort (take ra ls)) @ ?bl @ concat (map sort (drop (Suc ra) ls)))"
        using d unfolding s .
      show "before (concat (map sort (take ra ls)) @ ?bl @ concat (map sort (drop (Suc ra) ls))) a b"
        using assms(6) unfolding s .
      show "a \<in> set ?bl" using assms(4) by simp
      show "b \<in> set ?bl" using assms(5) 3 by simp
    qed
    moreover have "distinct ?bl"
      using d unfolding s by simp
    ultimately have "a < b"
      by (intro before_sorted[of ?bl]) simp_all
    with 3 show ?thesis by simp
  qed
qed

lemma before_total:
  assumes "a \<in> set xs" and "b \<in> set xs" and "a \<noteq> b"
  shows "before xs a b \<or> before xs b a"
proof -
  from assms(1) obtain i where i: "i < length xs" "xs ! i = a" by (auto simp: in_set_conv_nth)
  from assms(2) obtain j where j: "j < length xs" "xs ! j = b" by (auto simp: in_set_conv_nth)
  from assms(3) i j have "i \<noteq> j" by auto
  then consider "i < j" | "j < i" by linarith
  then show ?thesis
  proof cases
    case 1
    then have "before xs (xs ! i) (xs ! j)" using j(1) by (rule before_nth)
    with i j show ?thesis by simp
  next
    case 2
    then have "before xs (xs ! j) (xs ! i)" using i(1) by (rule before_nth)
    with i j show ?thesis by simp
  qed
qed

lemma before_filterD:
  assumes "distinct xs" and "before (filter P xs) a b"
  shows "before xs a b"
proof -
  from assms(2) obtain ys zs where f: "filter P xs = ys @ zs" "a \<in> set ys" "b \<in> set zs"
    unfolding before_def by blast
  then have "a \<in> set (ys @ zs)" "b \<in> set (ys @ zs)" by simp_all
  then have ab: "a \<in> set (filter P xs)" "b \<in> set (filter P xs)"
    unfolding f(1) .
  have d: "distinct (filter P xs)" using assms(1) by simp
  from before_distinct_asym[OF d assms(2)] have n: "\<not> before (filter P xs) b a" "a \<noteq> b" .
  from ab n(2) have "before xs a b \<or> before xs b a"
    by (intro before_total) simp_all
  then show ?thesis
  proof
    assume "before xs b a"
    then have "before (filter P xs) b a"
      using ab by (intro before_filter) simp_all
    with n(1) show ?thesis by simp
  qed
qed

lemma inheritance_entry:
  assumes "distinct (map fst cs)" and "(k, c) \<in> set cs" and "k \<in> set ns"
  shows "(k, bases c) \<in> set (inheritance cs ns)"
proof -
  from assms(1,2) have "map_of cs k = Some c" by simp
  then have "(k, bases c) = (\<lambda>n. (n, bases (the (map_of cs n)))) k" by simp
  with assms(3) show ?thesis
    unfolding inheritance_def by (metis (no_types, lifting) image_eqI set_map)
qed

lemma group_rounds:
  assumes dk: "distinct (map fst cs)" and ns: "ns = names_of_group cs g"
    and tf: "toposort_flatten (inheritance cs ns) = Inr order"
  shows "group_order cs ns = filter (\<lambda>n. n \<in> set ns) (concat (map sort (rounds cs ns)))"
    and "distinct (concat (rounds cs ns))"
    and "set ns \<subseteq> set (concat (rounds cs ns))"
    and "\<And>k c r. (k, c) \<in> set cs \<Longrightarrow> group c = g \<Longrightarrow> r < length (rounds cs ns) \<Longrightarrow>
           k \<in> set (rounds cs ns ! r) \<Longrightarrow>
           (r = 0 \<and> set (bases c) - {k} = {}) \<or>
           (0 < r \<and> set (bases c) - {k} \<subseteq> set (concat (take r (rounds cs ns))) \<and>
            (set (bases c) - {k}) \<inter> set (rounds cs ns ! (r - 1)) \<noteq> {})"
    and "\<And>x. x \<in> set (concat (rounds cs ns)) \<Longrightarrow> x \<notin> set ns \<Longrightarrow>
           rounds cs ns \<noteq> [] \<and> x \<in> set (rounds cs ns ! 0)"
proof -
  have dki: "distinct (map fst (inheritance cs ns))"
    unfolding keys_inheritance ns using dk by (rule distinct_names_of_group)
  from toposort_flatten_rounds[OF tf dki] obtain ls where t: "toposort (inheritance cs ns) = Inr ls"
    and o: "order = concat (map sort ls)"
    and d: "distinct (concat ls)"
    and s: "set (concat ls) = set (map fst (inheritance cs ns)) \<union> (\<Union>(n, deps) \<in> set (inheritance cs ns). set deps)"
    and rd: "\<forall>n deps k. (n, deps) \<in> set (inheritance cs ns) \<longrightarrow> k < length ls \<longrightarrow> n \<in> set (ls ! k) \<longrightarrow>
           (k = 0 \<and> set deps - {n} = {}) \<or>
           (0 < k \<and> set deps - {n} \<subseteq> set (concat (take k ls)) \<and>
            (set deps - {n}) \<inter> set (ls ! (k - 1)) \<noteq> {})"
    and ex: "\<forall>x. x \<in> set (concat ls) \<longrightarrow> x \<notin> set (map fst (inheritance cs ns)) \<longrightarrow> ls \<noteq> [] \<and> x \<in> set (ls ! 0)"
    by blast
  have r: "rounds cs ns = ls"
    by (simp add: rounds_def t)
  show "group_order cs ns = filter (\<lambda>n. n \<in> set ns) (concat (map sort (rounds cs ns)))"
    unfolding r by (simp add: group_order_def tf o)
  show "distinct (concat (rounds cs ns))"
    unfolding r by (rule d)
  show "set ns \<subseteq> set (concat (rounds cs ns))"
    unfolding r s keys_inheritance by blast
  show "(r = 0 \<and> set (bases c) - {k} = {}) \<or>
           (0 < r \<and> set (bases c) - {k} \<subseteq> set (concat (take r (rounds cs ns))) \<and>
            (set (bases c) - {k}) \<inter> set (rounds cs ns ! (r - 1)) \<noteq> {})"
    if "(k, c) \<in> set cs" "group c = g" "r < length (rounds cs ns)" "k \<in> set (rounds cs ns ! r)"
    for k c r
  proof -
    from that(1,2) have "k \<in> set ns"
      unfolding ns set_names_of_group by blast
    with dk that(1) have "(k, bases c) \<in> set (inheritance cs ns)"
      by (rule inheritance_entry)
    with rd that(3,4) show ?thesis
      unfolding r by blast
  qed
  show "rounds cs ns \<noteq> [] \<and> x \<in> set (rounds cs ns ! 0)"
    if "x \<in> set (concat (rounds cs ns))" "x \<notin> set ns" for x
    using that ex unfolding r keys_inheritance by blast
qed

lemma sort_groups_Inr_closed:
  assumes "distinct (map fst cs)"
    and "\<forall>(g, ns) \<in> set gs. ns = names_of_group cs g"
    and "sort_groups cs gs ret = Inr out"
    and "(g, ns) \<in> set gs" and "n \<in> set ns" and "(n, c) \<in> set cs"
  shows "set (bases c) \<subseteq> set (map fst cs)"
  using assms(2-4)
proof (induction gs arbitrary: ret)
  case Nil
  then show ?case by simp
next
  case (Cons p gs)
  obtain g' ns' where p: "p = (g', ns')" by (cases p)
  with Cons.prems(1) have ns': "ns' = names_of_group cs g'" by simp
  have inh: "inheritance_of cs ns' [] = Inr (inheritance cs ns')"
    unfolding ns' using assms(1) by (rule inheritance_of_group)
  from Cons.prems(2) inh obtain order ret' where
    tf: "toposort_flatten (inheritance cs ns') = Inr order"
    and cp: "copy_classes cs order ret = Inr ret'"
    and rest: "sort_groups cs gs ret' = Inr out"
    unfolding p by (auto split: sum.splits)
  show ?case
  proof (cases "(g, ns) = p")
    case True
    then have e: "ns' = ns" using p by simp
    have dki: "distinct (map fst (inheritance cs ns))"
      unfolding keys_inheritance using ns' e assms(1) distinct_names_of_group by metis
    from assms(1,6,5) have "(n, bases c) \<in> set (inheritance cs ns)"
      by (rule inheritance_entry)
    then have "set (bases c) \<subseteq> (\<Union>(n, deps) \<in> set (inheritance cs ns). set deps)"
      by blast
    also have "\<dots> \<subseteq> set order"
      using toposort_flatten_items(2)[OF tf[unfolded e] dki] by blast
    also have "\<dots> \<subseteq> set (map fst cs)"
      using cp by (rule copy_classes_keys)
    finally show ?thesis .
  next
    case False
    with Cons.prems(3) have "(g, ns) \<in> set gs" by simp
    moreover from Cons.prems(1) have "\<forall>(g, ns) \<in> set gs. ns = names_of_group cs g" by simp
    ultimately show ?thesis
      using rest by (intro Cons.IH[of ret']) simp_all
  qed
qed

lemma sorter_Inr_closed:
  assumes "distinct (map fst cs)" and "toposort_classes_by_group cs = Inr out"
  shows "\<forall>(n, c) \<in> set cs. set (bases c) \<subseteq> set (map fst cs)"
proof (intro ballI, clarify)
  fix n c x
  assume nc: "(n, c) \<in> set cs" and x: "x \<in> set (bases c)"
  have e: "\<forall>(g, ns) \<in> set (sorted_groups cs). ns = names_of_group cs g"
    using sorted_groups_entry by blast
  from nc have "group c \<in> set (map fst (sorted_groups cs))"
    unfolding sorted_groups_keys by force
  then obtain ns where g: "(group c, ns) \<in> set (sorted_groups cs)" by auto
  then have "ns = names_of_group cs (group c)"
    by (rule sorted_groups_entry)
  with nc have "n \<in> set ns"
    by (auto simp: set_names_of_group)
  from sort_groups_Inr_closed[OF assms(1) e assms(2)[unfolded toposort_classes_by_group_alt] g this nc] x
  show "x \<in> set (map fst cs)" by blast
qed

lemma sorter_closed_result:
  assumes "distinct (map fst cs)"
    and "\<forall>(n, c) \<in> set cs. set (bases c) \<subseteq> set (map fst cs)"
  shows "toposort_classes_by_group cs = Inl CircularDependencyError \<or>
     (\<exists>out. toposort_classes_by_group cs = Inr out \<and> set out = set cs \<and> distinct (map fst out))"
proof (cases "toposort_classes_by_group cs = Inl CircularDependencyError")
  case True
  then show ?thesis by simp
next
  case False
  have "\<forall>(g, ns) \<in> set (sorted_groups cs). ns = names_of_group cs g"
    using sorted_groups_entry by blast
  from sort_groups_closed[OF assms(1,2) this, of "[]"] False
  obtain out where f: "toposort_classes_by_group cs = Inr out" "set out \<subseteq> set cs"
    "(\<Union>(g, ns) \<in> set (sorted_groups cs). set ns) \<subseteq> set (map fst out)"
    and dk: "distinct (map fst out)"
    unfolding toposort_classes_by_group_alt by auto
  have "set cs \<subseteq> set out"
  proof
    fix p assume p: "p \<in> set cs"
    obtain n c where nc: "p = (n, c)" by (cases p)
    with p have "group c \<in> set (map fst (sorted_groups cs))"
      unfolding sorted_groups_keys by force
    then obtain ns where g: "(group c, ns) \<in> set (sorted_groups cs)" by auto
    then have "ns = names_of_group cs (group c)"
      by (rule sorted_groups_entry)
    with p nc have "n \<in> set ns"
      by (auto simp: set_names_of_group)
    with g f(3) have "n \<in> set (map fst out)" by blast
    then obtain c' where c': "(n, c') \<in> set out" by auto
    with f(2) have "(n, c') \<in> set cs" by auto
    with assms(1) p nc have "c' = c"
      by (meson eq_key_imp_eq_value)
    with c' nc show "p \<in> set out" by simp
  qed
  with f(2) have "set out = set cs" by blast
  with f(1) dk show ?thesis by blast
qed

lemma sorter_Inr_set:
  assumes "distinct (map fst cs)" and "toposort_classes_by_group cs = Inr out"
  shows "set out = set cs" and "distinct (map fst out)"
proof -
  have "\<forall>(n, c) \<in> set cs. set (bases c) \<subseteq> set (map fst cs)"
    using assms by (rule sorter_Inr_closed)
  from sorter_closed_result[OF assms(1) this] assms(2)
  show "set out = set cs" and "distinct (map fst out)" by simp_all
qed

lemma sorter_blocks:
  assumes "distinct (map fst cs)" and "bases_below cs" and "toposort_classes_by_group cs = Inr out"
  shows "map fst out = concat (map (\<lambda>(g, ns). group_order cs ns) (sorted_groups cs))"
    and "\<forall>(g, ns) \<in> set (sorted_groups cs). \<exists>order. toposort_flatten (inheritance cs ns) = Inr order"
proof -
  have e: "\<forall>(g, ns) \<in> set (sorted_groups cs). ns = names_of_group cs g"
    using sorted_groups_entry by blast
  have i1: "\<forall>(k, c) \<in> set []. \<forall>g \<in> set (map fst (sorted_groups cs)). group c < g"
    by simp
  have i2: "\<forall>(k, c) \<in> set cs. group c \<in> set (map fst (sorted_groups cs)) \<or> (k, c) \<in> set []"
    unfolding sorted_groups_keys by force
  have "set [] \<subseteq> set cs" by simp
  from sort_groups_blocks[OF assms(1,2) sorted_groups_sorted sorted_groups_distinct e this i1 i2
      assms(3)[unfolded toposort_classes_by_group_alt]]
  show "map fst out = concat (map (\<lambda>(g, ns). group_order cs ns) (sorted_groups cs))"
    and "\<forall>(g, ns) \<in> set (sorted_groups cs). \<exists>order. toposort_flatten (inheritance cs ns) = Inr order"
    by simp_all
qed

lemma block_of_class:
  assumes "(k, c) \<in> set cs"
  shows "(group c, names_of_group cs (group c)) \<in> set (sorted_groups cs)"
    and "\<exists>P S. concat (map (\<lambda>(g, ns). group_order cs ns) (sorted_groups cs)) =
           P @ group_order cs (names_of_group cs (group c)) @ S"
proof -
  from assms have "group c \<in> set (map fst (sorted_groups cs))"
    unfolding sorted_groups_keys by force
  then obtain ns where g: "(group c, ns) \<in> set (sorted_groups cs)" by auto
  then have "ns = names_of_group cs (group c)"
    by (rule sorted_groups_entry)
  with g show m: "(group c, names_of_group cs (group c)) \<in> set (sorted_groups cs)" by simp
  then obtain gs1 gs2 where "sorted_groups cs = gs1 @ (group c, names_of_group cs (group c)) # gs2"
    by (auto dest: split_list)
  then have "concat (map (\<lambda>(g, ns). group_order cs ns) (sorted_groups cs)) =
      concat (map (\<lambda>(g, ns). group_order cs ns) gs1) @ group_order cs (names_of_group cs (group c)) @
      concat (map (\<lambda>(g, ns). group_order cs ns) gs2)"
    by simp
  then show "\<exists>P S. concat (map (\<lambda>(g, ns). group_order cs ns) (sorted_groups cs)) =
           P @ group_order cs (names_of_group cs (group c)) @ S"
    by blast
qed

lemma sorted_constant: "\<forall>x \<in> set xs. f x = g \<Longrightarrow> sorted (map f xs)"
  by (induction xs) auto

lemma sorted_blocks:
  assumes "sorted (map fst gs)" and "\<forall>(g, ns) \<in> set gs. \<forall>k \<in> set (B ns). f k = g"
  shows "sorted (map f (concat (map (\<lambda>(g, ns). B ns) gs)))"
  using assms
proof (induction gs)
  case Nil
  then show ?case by simp
next
  case (Cons p gs)
  obtain g ns where p: "p = (g, ns)" by (cases p)
  from Cons.prems(2) have blk: "\<forall>k \<in> set (B ns). f k = g" unfolding p by simp
  then have s1: "sorted (map f (B ns))" by (rule sorted_constant)
  from Cons.prems have s2: "sorted (map f (concat (map (\<lambda>(g, ns). B ns) gs)))"
    by (intro Cons.IH) simp_all
  have le: "f x \<le> f y" if "x \<in> set (B ns)" "y \<in> set (concat (map (\<lambda>(g, ns). B ns) gs))" for x y
  proof -
    from that(2) obtain g' ns' where g': "(g', ns') \<in> set gs" "y \<in> set (B ns')" by auto
    with Cons.prems(2) have "f y = g'" by auto
    moreover from g'(1) Cons.prems(1) have "g \<le> g'" unfolding p by force
    moreover from blk that(1) have "f x = g" by simp
    ultimately show ?thesis by simp
  qed
  have e: "map f (concat (map (\<lambda>(g, ns). B ns) (p # gs))) =
      map f (B ns) @ map f (concat (map (\<lambda>(g, ns). B ns) gs))"
    unfolding p by simp
  have "\<forall>u \<in> set (map f (B ns)). \<forall>v \<in> set (map f (concat (map (\<lambda>(g, ns). B ns) gs))). u \<le> v"
  proof (intro ballI)
    fix u v
    assume "u \<in> set (map f (B ns))" and "v \<in> set (map f (concat (map (\<lambda>(g, ns). B ns) gs)))"
    then obtain x y where "x \<in> set (B ns)" "u = f x"
      "y \<in> set (concat (map (\<lambda>(g, ns). B ns) gs))" "v = f y"
      unfolding set_map by blast
    with le show "u \<le> v" by simp
  qed
  with s1 s2 show ?case
    unfolding e sorted_append by blast
qed

lemma group_order_names:
  assumes "distinct (map fst cs)" and "toposort_flatten (inheritance cs (names_of_group cs g)) = Inr order"
  shows "set (group_order cs (names_of_group cs g)) = set (names_of_group cs g)"
proof -
  from group_rounds(1,3)[OF assms(1) refl assms(2)]
  show ?thesis by auto
qed

lemma class_group_lookup:
  assumes "distinct (map fst cs)" and "k \<in> set (names_of_group cs g)"
  shows "group (the (map_of cs k)) = g"
proof -
  from assms(2) obtain c where "(k, c) \<in> set cs" "group c = g"
    unfolding set_names_of_group by blast
  with assms(1) show ?thesis by simp
qed

lemma sorter_groups_sorted:
  assumes dk: "distinct (map fst cs)" and below: "bases_below cs"
    and res: "toposort_classes_by_group cs = Inr out"
  shows "sorted (map (group \<circ> snd) out)"
proof -
  let ?f = "\<lambda>k. group (the (map_of cs k))"
  have sub: "set out = set cs" using dk res by (rule sorter_Inr_set)
  have "map (group \<circ> snd) out = map ?f (map fst out)"
  proof -
    have "(group \<circ> snd) p = ?f (fst p)" if "p \<in> set out" for p
    proof -
      obtain k c where p: "p = (k, c)" by (cases p)
      with that sub have "(k, c) \<in> set cs" by simp
      with dk have "map_of cs k = Some c" by simp
      with p show ?thesis by simp
    qed
    then show ?thesis by simp
  qed
  also have "\<dots> = map ?f (concat (map (\<lambda>(g, ns). group_order cs ns) (sorted_groups cs)))"
    using sorter_blocks(1)[OF dk below res] by simp
  finally have e: "map (group \<circ> snd) out =
      map ?f (concat (map (\<lambda>(g, ns). group_order cs ns) (sorted_groups cs)))" .
  have "\<forall>(g, ns) \<in> set (sorted_groups cs). \<forall>k \<in> set (group_order cs ns). ?f k = g"
  proof (intro ballI, clarify)
    fix g ns k
    assume g: "(g, ns) \<in> set (sorted_groups cs)" and k: "k \<in> set (group_order cs ns)"
    from g have ns: "ns = names_of_group cs g" by (rule sorted_groups_entry)
    from sorter_blocks(2)[OF dk below res] g obtain order where
      "toposort_flatten (inheritance cs ns) = Inr order" by blast
    then have "set (group_order cs ns) = set ns"
      unfolding ns using dk by (intro group_order_names)
    with k have "k \<in> set (names_of_group cs g)" unfolding ns by simp
    with dk show "?f k = g" by (rule class_group_lookup)
  qed
  with sorted_groups_sorted have "sorted (map ?f (concat (map (\<lambda>(g, ns). group_order cs ns) (sorted_groups cs))))"
    by (rule sorted_blocks)
  then show ?thesis unfolding e .
qed

lemma group_acyclic:
  assumes dk: "distinct (map fst cs)"
    and ac: "acyclic (same_group_bases cs)"
  shows "acyclic {(d, n). \<exists>deps. (n, deps) \<in> set (inheritance cs (names_of_group cs g)) \<and>
     d \<in> set deps \<and> d \<noteq> n}"
    (is "acyclic ?E")
proof -
  let ?ns = "names_of_group cs g"
  have edge: "n \<in> set ?ns \<and> (d \<in> set ?ns \<longrightarrow> (d, n) \<in> same_group_bases cs)" if "(d, n) \<in> ?E" for d n
  proof -
    from that obtain deps where e: "(n, deps) \<in> set (inheritance cs ?ns)" and d: "d \<in> set deps" "d \<noteq> n"
      by blast
    from e have n: "n \<in> set ?ns" and deps: "deps = bases (the (map_of cs n))"
      by (auto simp: inheritance_def)
    from n obtain c where c: "(n, c) \<in> set cs" "group c = g"
      unfolding set_names_of_group by blast
    with dk have "map_of cs n = Some c" by simp
    with deps d have b: "d \<in> set (bases c)" by simp
    have "(d, n) \<in> same_group_bases cs" if "d \<in> set ?ns"
    proof -
      from that obtain c' where "(d, c') \<in> set cs" "group c' = g"
        unfolding set_names_of_group by blast
      with c b d(2) show ?thesis
        unfolding same_group_bases_def by blast
    qed
    with n show ?thesis by simp
  qed
  have path: "(a, b) \<in> (same_group_bases cs)\<^sup>+ \<and> b \<in> set ?ns" if "(a, b) \<in> ?E\<^sup>+" and "a \<in> set ?ns" for a b
    using that
  proof (induction rule: trancl_induct)
    case (base y)
    with edge[OF base(1)] show ?case by blast
  next
    case (step y z)
    from step.IH[OF step.prems] have p: "(a, y) \<in> (same_group_bases cs)\<^sup>+" and y: "y \<in> set ?ns"
      by simp_all
    from edge[OF step.hyps(2)] y have "(y, z) \<in> same_group_bases cs" and "z \<in> set ?ns"
      by simp_all
    with p show ?case by (simp add: trancl.trancl_into_trancl)
  qed
  show ?thesis
    unfolding acyclic_def
  proof (intro allI notI)
    fix x
    assume x: "(x, x) \<in> ?E\<^sup>+"
    then obtain y where "(y, x) \<in> ?E"
      by (meson tranclD2)
    with edge have "x \<in> set ?ns" by blast
    with x have "(x, x) \<in> (same_group_bases cs)\<^sup>+"
      using path by blast
    with ac show False
      unfolding acyclic_def by blast
  qed
qed

lemma sort_groups_returns:
  assumes "distinct (map fst cs)"
    and "\<forall>(n, c) \<in> set cs. set (bases c) \<subseteq> set (map fst cs)"
    and "acyclic (same_group_bases cs)"
    and "\<forall>(g, ns) \<in> set gs. ns = names_of_group cs g"
    and "set ret \<subseteq> set cs"
  shows "\<exists>out. sort_groups cs gs ret = Inr out"
  using assms(4,5)
proof (induction gs arbitrary: ret)
  case Nil
  then show ?case by simp
next
  case (Cons p gs)
  obtain g ns where p: "p = (g, ns)" by (cases p)
  with Cons.prems(1) have ns: "ns = names_of_group cs g" by simp
  have inh: "inheritance_of cs ns [] = Inr (inheritance cs ns)"
    unfolding ns using assms(1) by (rule inheritance_of_group)
  have sub: "set ns \<subseteq> set (map fst cs)"
    unfolding ns by (rule names_of_group_subset)
  have "acyclic {(d, n). \<exists>deps. (n, deps) \<in> set (inheritance cs ns) \<and> d \<in> set deps \<and> d \<noteq> n}"
    unfolding ns using assms(1,3) by (rule group_acyclic)
  then obtain order where ord: "toposort_flatten (inheritance cs ns) = Inr order"
    using toposort_flatten_returns by blast
  have dk: "distinct (map fst (inheritance cs ns))"
    unfolding keys_inheritance ns using assms(1) by (rule distinct_names_of_group)
  from toposort_flatten_items[OF ord dk]
  have o: "distinct order"
    "set order = set ns \<union> {b. \<exists>n c. n \<in> set ns \<and> (n, c) \<in> set cs \<and> b \<in> set (bases c)}"
    unfolding keys_inheritance inheritance_deps[OF assms(1) sub] by simp_all
  have os: "set order \<subseteq> set (map fst cs)"
    unfolding o(2) using sub assms(2) by auto
  let ?ret' = "ret @ map (\<lambda>n. (n, the (map_of cs n))) (filter (\<lambda>n. n \<notin> set (map fst ret)) order)"
  have c: "copy_classes cs order ret = Inr ?ret'"
    using assms(1) os o(1) Cons.prems(2) by (rule copy_classes_result)
  have r': "set ?ret' \<subseteq> set cs"
    using os Cons.prems(2) by (rule copied_subset)
  have step: "sort_groups cs (p # gs) ret = sort_groups cs gs ?ret'"
    unfolding p using inh ord c by simp
  from Cons.prems(1) have "\<forall>(g, ns) \<in> set gs. ns = names_of_group cs g" by simp
  from Cons.IH[OF this r'] step show ?case by simp
qed

lemma sorter_returns:
  assumes "distinct (map fst cs)"
    and "\<forall>(n, c) \<in> set cs. set (bases c) \<subseteq> set (map fst cs)"
    and "acyclic (same_group_bases cs)"
  shows "\<exists>out. toposort_classes_by_group cs = Inr out"
proof -
  have "\<forall>(g, ns) \<in> set (sorted_groups cs). ns = names_of_group cs g"
    using sorted_groups_entry by blast
  from sort_groups_returns[OF assms this, of "[]"] show ?thesis
    unfolding toposort_classes_by_group_alt by simp
qed

text \<open>
  C10, as amended. For every input mapping, with distinct keys, in which every name
  listed in the bases of a class is a key, and in which the inheritance within the
  groups has no cycle, the sorter returns, and what it returns is a mapping with the
  same bindings of keys to \<open>Class\<close> values as the input, in some order: it adds, drops
  and changes nothing.
\<close>

theorem sorter_reorders_only:
  assumes "distinct (map fst cs)"
    and "\<forall>(n, c) \<in> set cs. set (bases c) \<subseteq> set (map fst cs)"
    and "acyclic (same_group_bases cs)"
  shows "\<exists>ret. toposort_classes_by_group cs = Inr ret \<and> mset ret = mset cs \<and> distinct (map fst ret)"
proof -
  from sorter_returns[OF assms] obtain out where r: "toposort_classes_by_group cs = Inr out"
    by blast
  with sorter_closed_result[OF assms(1,2)]
  have o: "set out = set cs" "distinct (map fst out)"
    by simp_all
  have "distinct out" using o(2) by (simp add: distinct_map)
  moreover have "distinct cs" using assms(1) by (simp add: distinct_map)
  ultimately have "mset out = mset cs"
    using o(1) by (simp add: set_eq_iff_mset_eq_distinct)
  with r o(2) show ?thesis by blast
qed

theorem sorter_reorders_only_witness:
  "same_group_bases sibling_classes = {(''Root'', ''B''), (''Root'', ''A'')} \<and>
   acyclic (same_group_bases sibling_classes) \<and>
   toposort_classes_by_group sibling_classes = Inr sibling_sorted \<and>
   (\<exists>ret. toposort_classes_by_group sibling_classes = Inr ret \<and>
      mset ret = mset sibling_classes \<and> distinct (map fst ret))"
proof -
  have d: "distinct (map fst sibling_classes)"
    by (simp add: sibling_classes_def)
  have c: "\<forall>(n, c) \<in> set sibling_classes. set (bases c) \<subseteq> set (map fst sibling_classes)"
    by (simp add: sibling_classes_def Class_of_def)
  have "(b, n) \<in> same_group_bases sibling_classes \<longleftrightarrow>
      (b, n) \<in> {(''Root'', ''B''), (''Root'', ''A'')}" for b n
    unfolding same_group_bases_def sibling_classes_def Class_of_def
    by (simp add: ex_disj_distrib conj_disj_distribL conj_disj_distribR) auto
  then have s: "same_group_bases sibling_classes = {(''Root'', ''B''), (''Root'', ''A'')}"
    by auto
  have "{(''Root'', ''B''), (''Root'', ''A'')} \<subseteq> measure (\<lambda>n. if n = ''Root'' then 0 else Suc 0)"
    by simp
  with wf_acyclic[OF wf_measure] have a: "acyclic (same_group_bases sibling_classes)"
    unfolding s by (rule acyclic_subset)
  have r: "toposort_classes_by_group sibling_classes = Inr sibling_sorted"
    by code_simp
  from sorter_reorders_only[OF d c a] have
    "\<exists>ret. toposort_classes_by_group sibling_classes = Inr ret \<and>
      mset ret = mset sibling_classes \<and> distinct (map fst ret)" .
  with s a r show ?thesis
    by (intro conjI)
qed

text \<open>C10 as stated: the sorter returns for every mapping whose bases are keys. Of two
  classes of one group that are each other's base, a cycle of the inheritance within
  the group, it returns nothing.\<close>

theorem sorter_cycle_counterexample:
  "toposort_classes_by_group cyclic_classes = Inl CircularDependencyError \<and>
   distinct (map fst cyclic_classes) \<and>
   set (bases (Class_of ''A'' [''B''] [])) \<subseteq> set (map fst cyclic_classes) \<and>
   set (bases (Class_of ''B'' [''A''] [])) \<subseteq> set (map fst cyclic_classes) \<and>
   (''A'', ''A'') \<in> (same_group_bases cyclic_classes)\<^sup>+"
proof -
  have r: "toposort_classes_by_group cyclic_classes = Inl CircularDependencyError"
    by code_simp
  have "(''A'', ''B'') \<in> same_group_bases cyclic_classes"
    and "(''B'', ''A'') \<in> same_group_bases cyclic_classes"
    by (simp_all add: same_group_bases_def cyclic_classes_def Class_of_def)
  then have "(''A'', ''A'') \<in> (same_group_bases cyclic_classes)\<^sup>+"
    by (rule trancl_into_trancl2[OF _ r_into_trancl])
  with r show ?thesis
    by (simp add: cyclic_classes_def Class_of_def)
qed

lemma round_of_class:
  assumes "distinct (map fst cs)" and "(k, c) \<in> set cs"
  shows "round_of cs k = round_index (rounds cs (names_of_group cs (group c))) k"
proof -
  from assms have "map_of cs k = Some c" by simp
  then show ?thesis by (simp add: round_of_def)
qed

lemma round_of_recurrence:
  assumes dk: "distinct (map fst cs)" and below: "bases_below cs"
    and res: "toposort_classes_by_group cs = Inr out"
    and nc: "(n, c) \<in> set cs"
  shows "round_of cs n =
     (if set (bases c) - {n} = {} then 0
      else Suc (Max ((\<lambda>b. if \<exists>c'. (b, c') \<in> set cs \<and> group c' = group c then round_of cs b else 0) `
                  (set (bases c) - {n}))))"
proof -
  let ?ns = "names_of_group cs (group c)"
  let ?ls = "rounds cs ?ns"
  let ?D = "set (bases c) - {n}"
  let ?val = "\<lambda>b. if \<exists>c'. (b, c') \<in> set cs \<and> group c' = group c then round_of cs b else 0"
  from block_of_class(1)[OF nc] have g: "(group c, ?ns) \<in> set (sorted_groups cs)" .
  from sorter_blocks(2)[OF dk below res] g obtain order where
    tf: "toposort_flatten (inheritance cs ?ns) = Inr order" by blast
  note gr = group_rounds[OF dk refl tf]
  have nn: "n \<in> set ?ns" using nc unfolding set_names_of_group by blast
  with gr(3) have "n \<in> set (concat ?ls)" by blast
  then obtain r where r: "r < length ?ls" "n \<in> set (?ls ! r)" by (rule in_concat_round)
  have lv: "round_of cs n = r"
    unfolding round_of_class[OF dk nc] using gr(2) r by (rule round_index_eq)
  show ?thesis
  proof (cases "?D = {}")
    case True
    with gr(4)[OF nc refl r] have "r = 0" by blast
    with lv True show ?thesis by simp
  next
    case False
    with gr(4)[OF nc refl r] have r0: "0 < r" and sub: "?D \<subseteq> set (concat (take r ?ls))"
      and last: "?D \<inter> set (?ls ! (r - 1)) \<noteq> {}"
      by blast+
    have idx: "\<exists>rb < r. b \<in> set (?ls ! rb) \<and> round_index ?ls b = rb" if "b \<in> ?D" for b
    proof -
      from that sub have "b \<in> set (concat (take r ?ls))" by blast
      then obtain rb where rb: "rb < length (take r ?ls)" "b \<in> set (take r ?ls ! rb)"
        by (rule in_concat_round)
      then have lt: "rb < r" and m: "b \<in> set (?ls ! rb)" by simp_all
      from lt r(1) have "rb < length ?ls" by simp
      with gr(2) have "round_index ?ls b = rb" using m by (rule round_index_eq)
      with lt m show ?thesis by blast
    qed
    have val: "?val b = round_index ?ls b" if "b \<in> ?D" for b
    proof (cases "\<exists>c'. (b, c') \<in> set cs \<and> group c' = group c")
      case True
      then obtain c' where c': "(b, c') \<in> set cs" "group c' = group c" by blast
      have "?val b = round_of cs b" using True by (rule if_P)
      with round_of_class[OF dk c'(1)] c'(2) show ?thesis by simp
    next
      case nb: False
      then have "b \<notin> set ?ns" unfolding set_names_of_group by blast
      moreover from idx[OF that] obtain rb where "b \<in> set (?ls ! rb)" "rb < r" by blast
      with r(1) have "b \<in> set (concat ?ls)"
        by (metis in_set_conv_nth less_trans set_concat UN_I)
      ultimately have "?ls \<noteq> [] \<and> b \<in> set (?ls ! 0)" by (intro gr(5))
      then have "0 < length ?ls" "b \<in> set (?ls ! 0)" by simp_all
      with gr(2) have "round_index ?ls b = 0" by (rule round_index_eq)
      moreover have "?val b = 0" using nb by (rule if_not_P)
      ultimately show ?thesis by simp
    qed
    then have img: "?val ` ?D = round_index ?ls ` ?D" by (intro image_cong) simp_all
    have "Max (round_index ?ls ` ?D) = r - 1"
    proof (rule Max_eqI)
      show "finite (round_index ?ls ` ?D)" by simp
    next
      fix y assume "y \<in> round_index ?ls ` ?D"
      then obtain b where "b \<in> ?D" "y = round_index ?ls b" by blast
      with idx[of b] show "y \<le> r - 1" by auto
    next
      from last obtain b0 where b0: "b0 \<in> ?D" "b0 \<in> set (?ls ! (r - 1))" by blast
      from r0 r(1) have "r - 1 < length ?ls" by simp
      with gr(2) have "round_index ?ls b0 = r - 1" using b0(2) by (rule round_index_eq)
      with b0(1) show "r - 1 \<in> round_index ?ls ` ?D" by (metis imageI)
    qed
    with r0 have "Suc (Max (?val ` ?D)) = r" unfolding img by simp
    with lv False show ?thesis by simp
  qed
qed

lemma round_then_name:
  assumes dk: "distinct (map fst cs)" and below: "bases_below cs"
    and res: "toposort_classes_by_group cs = Inr out"
    and ij: "i < j" "j < length out" and gr: "group (snd (out ! i)) = group (snd (out ! j))"
  shows "round_of cs (fst (out ! i)) < round_of cs (fst (out ! j)) \<or>
     (round_of cs (fst (out ! i)) = round_of cs (fst (out ! j)) \<and> fst (out ! i) < fst (out ! j))"
proof -
  let ?keys = "map fst out"
  let ?ki = "fst (out ! i)" and ?kj = "fst (out ! j)"
  let ?ns = "names_of_group cs (group (snd (out ! j)))"
  let ?ls = "rounds cs ?ns"
  have eq: "set out = set cs" and dko: "distinct ?keys"
    using dk res by (rule sorter_Inr_set)+
  from ij have li: "i < length out" by simp
  have ni: "?keys ! i = ?ki" and nj: "?keys ! j = ?kj"
    using li ij(2) by simp_all
  have "out ! i \<in> set out" using li by (rule nth_mem)
  then have ci: "(?ki, snd (out ! i)) \<in> set cs" unfolding eq by simp
  have "out ! j \<in> set out" using ij(2) by (rule nth_mem)
  then have cj: "(?kj, snd (out ! j)) \<in> set cs" unfolding eq by simp
  from block_of_class[OF cj] obtain P S where
    g: "(group (snd (out ! j)), ?ns) \<in> set (sorted_groups cs)"
    and ps: "concat (map (\<lambda>(g, ns). group_order cs ns) (sorted_groups cs)) = P @ group_order cs ?ns @ S"
    by blast
  from sorter_blocks(2)[OF dk below res] g obtain order where
    tf: "toposort_flatten (inheritance cs ?ns) = Inr order" by blast
  note rs = group_rounds[OF dk refl tf]
  have keys: "?keys = P @ group_order cs ?ns @ S"
    unfolding sorter_blocks(1)[OF dk below res] ps ..
  have in_i: "?ki \<in> set ?ns" using ci gr unfolding set_names_of_group by blast
  have in_j: "?kj \<in> set ?ns" using cj unfolding set_names_of_group by blast
  have bl: "set (group_order cs ?ns) = set ?ns"
    using dk tf by (rule group_order_names)
  have "j < length ?keys" using ij(2) by simp
  with ij(1) have "before ?keys (?keys ! i) (?keys ! j)"
    by (rule before_nth)
  then have "before ?keys ?ki ?kj"
    unfolding ni nj .
  then have b1: "before (P @ group_order cs ?ns @ S) ?ki ?kj"
    unfolding keys .
  have d1: "distinct (P @ group_order cs ?ns @ S)"
    using dko unfolding keys .
  have m1: "?ki \<in> set (group_order cs ?ns)" and m2: "?kj \<in> set (group_order cs ?ns)"
    using in_i in_j unfolding bl by simp_all
  have "before (group_order cs ?ns) ?ki ?kj"
    using d1 b1 m1 m2 by (rule before_in_block)
  then have b2: "before (filter (\<lambda>n. n \<in> set ?ns) (concat (map sort ?ls))) ?ki ?kj"
    unfolding rs(1) .
  have d: "distinct (concat (map sort ?ls))"
    using rs(2) by (rule distinct_concat_map_sort)
  have bf: "before (concat (map sort ?ls)) ?ki ?kj"
    using d b2 by (rule before_filterD)
  from in_i rs(3) have "?ki \<in> set (concat ?ls)" by blast
  then obtain ri where ri: "ri < length ?ls" "?ki \<in> set (?ls ! ri)" by (rule in_concat_round)
  from in_j rs(3) have "?kj \<in> set (concat ?ls)" by blast
  then obtain rj where rj: "rj < length ?ls" "?kj \<in> set (?ls ! rj)" by (rule in_concat_round)
  have "round_of cs ?ki = ri"
    unfolding round_of_class[OF dk ci] gr using rs(2) ri by (rule round_index_eq)
  moreover have "round_of cs ?kj = rj"
    unfolding round_of_class[OF dk cj] using rs(2) rj by (rule round_index_eq)
  moreover from rs(2) ri(1) rj(1) ri(2) rj(2) bf have "ri < rj \<or> (ri = rj \<and> ?ki < ?kj)"
    by (rule before_rounds)
  ultimately show ?thesis by simp
qed

text \<open>
  C4, as amended. Let no class have a base of a group that is lexicographically greater
  than its own group. Then the declaration order has no part in the output: the classes
  of a group appear by rounds of the topological sort and, within a round, in ascending
  lexicographic order of their names. The round of a class is 0 when it lists no base
  other than itself, and otherwise one more than the greatest round of its bases, a
  base of another group counting as round 0. So two classes of a group with no ordering
  constraint between them appear by round first and by name second.
\<close>

theorem ties_by_round_then_name:
  assumes "distinct (map fst cs)" and "bases_below cs"
    and "toposort_classes_by_group cs = Inr ret"
  shows "\<exists>lv.
     (\<forall>(n, c) \<in> set cs.
        lv n = (if set (bases c) - {n} = {} then 0
                else Suc (Max ((\<lambda>b. if \<exists>c'. (b, c') \<in> set cs \<and> group c' = group c then lv b else 0) `
                            (set (bases c) - {n}))))) \<and>
     (\<forall>i j. i < j \<and> j < length ret \<and> group (snd (ret ! i)) = group (snd (ret ! j)) \<longrightarrow>
        lv (fst (ret ! i)) < lv (fst (ret ! j)) \<or>
        (lv (fst (ret ! i)) = lv (fst (ret ! j)) \<and> fst (ret ! i) < fst (ret ! j)))"
proof (intro exI[of _ "round_of cs"] conjI ballI allI impI)
  fix p assume m: "p \<in> set cs"
  obtain n c where p: "p = (n, c)" by (cases p)
  with m have "(n, c) \<in> set cs" by simp
  from round_of_recurrence[OF assms this] p
  show "case p of (n, c) \<Rightarrow> round_of cs n =
      (if set (bases c) - {n} = {} then 0
       else Suc (Max ((\<lambda>b. if \<exists>c'. (b, c') \<in> set cs \<and> group c' = group c then round_of cs b else 0) `
                   (set (bases c) - {n}))))"
    by simp
next
  fix i j
  assume "i < j \<and> j < length ret \<and> group (snd (ret ! i)) = group (snd (ret ! j))"
  then have "i < j" "j < length ret" "group (snd (ret ! i)) = group (snd (ret ! j))" by simp_all
  with assms show "round_of cs (fst (ret ! i)) < round_of cs (fst (ret ! j)) \<or>
      (round_of cs (fst (ret ! i)) = round_of cs (fst (ret ! j)) \<and> fst (ret ! i) < fst (ret ! j))"
    by (rule round_then_name)
qed

theorem ties_by_round_then_name_witness:
  "toposort_classes_by_group sibling_classes = Inr sibling_sorted \<and>
   bases_below sibling_classes \<and>
   (\<exists>lv.
     (\<forall>(n, c) \<in> set sibling_classes.
        lv n = (if set (bases c) - {n} = {} then 0
                else Suc (Max ((\<lambda>b. if \<exists>c'. (b, c') \<in> set sibling_classes \<and> group c' = group c
                                      then lv b else 0) `
                            (set (bases c) - {n}))))) \<and>
     (\<forall>i j. i < j \<and> j < length sibling_sorted \<and>
        group (snd (sibling_sorted ! i)) = group (snd (sibling_sorted ! j)) \<longrightarrow>
        lv (fst (sibling_sorted ! i)) < lv (fst (sibling_sorted ! j)) \<or>
        (lv (fst (sibling_sorted ! i)) = lv (fst (sibling_sorted ! j)) \<and>
         fst (sibling_sorted ! i) < fst (sibling_sorted ! j))))"
proof -
  have d: "distinct (map fst sibling_classes)"
    by (simp add: sibling_classes_def)
  have b: "bases_below sibling_classes"
    by (simp add: bases_below_def sibling_classes_def Class_of_def)
  have r: "toposort_classes_by_group sibling_classes = Inr sibling_sorted"
    by code_simp
  from ties_by_round_then_name[OF d b r] r b show ?thesis
    by blast
qed

text \<open>C4 as stated: classes of a group with no ordering constraint between them appear
  in declaration order. \<open>B\<close> is declared before \<open>A\<close>, both have the one base \<open>Root\<close>, and
  \<open>A\<close> comes out before \<open>B\<close>.\<close>

theorem sorter_declaration_order_counterexample:
  "map fst sibling_classes = [''Root'', ''B'', ''A''] \<and>
   toposort_classes_by_group sibling_classes = Inr sibling_sorted \<and>
   map fst sibling_sorted = [''Root'', ''A'', ''B'']"
proof -
  have "toposort_classes_by_group sibling_classes = Inr sibling_sorted"
    by code_simp
  then show ?thesis
    by (simp add: sibling_classes_def sibling_sorted_def)
qed

subsection \<open>Order of the classes of a loaded schema\<close>

lemma sorter_base_before:
  assumes dk: "distinct (map fst cs)" and below: "bases_below cs"
    and res: "toposort_classes_by_group cs = Inr out"
    and kc: "(k, c) \<in> set cs" and b: "b \<in> set (bases c)" "b \<noteq> k"
    and bc: "(b, c') \<in> set cs" "group c' = group c"
  shows "before (map fst out) b k"
proof -
  let ?ns = "names_of_group cs (group c)"
  let ?ls = "rounds cs ?ns"
  from block_of_class[OF kc] obtain P S where
    g: "(group c, ?ns) \<in> set (sorted_groups cs)"
    and ps: "concat (map (\<lambda>(g, ns). group_order cs ns) (sorted_groups cs)) = P @ group_order cs ?ns @ S"
    by blast
  from sorter_blocks(2)[OF dk below res] g obtain order where
    tf: "toposort_flatten (inheritance cs ?ns) = Inr order" by blast
  note gr = group_rounds[OF dk refl tf]
  have kn: "k \<in> set ?ns" using kc unfolding set_names_of_group by blast
  have bn: "b \<in> set ?ns" using bc unfolding set_names_of_group by blast
  from kn gr(3) have "k \<in> set (concat ?ls)" by blast
  then obtain r where r: "r < length ?ls" "k \<in> set (?ls ! r)" by (rule in_concat_round)
  from b have ne: "set (bases c) - {k} \<noteq> {}" by blast
  with gr(4)[OF kc refl r] have r0: "0 < r" and sub: "set (bases c) - {k} \<subseteq> set (concat (take r ?ls))"
    by blast+
  from sub b have "b \<in> set (concat (take r ?ls))" by blast
  then obtain rb where rb: "rb < length (take r ?ls)" "b \<in> set (take r ?ls ! rb)"
    by (rule in_concat_round)
  then have "rb < r" "b \<in> set (?ls ! rb)" by simp_all
  from this(1) r(1) this(2) r(2) have "before (concat (map sort ?ls)) b k"
    by (rule rounds_before)
  then have "before (filter (\<lambda>n. n \<in> set ?ns) (concat (map sort ?ls))) b k"
    using bn kn by (rule before_filter)
  then have "before (group_order cs ?ns) b k"
    unfolding gr(1) .
  then have "before (P @ group_order cs ?ns @ S) b k"
    by (intro before_in_suffix before_in_prefix)
  then show ?thesis
    unfolding sorter_blocks(1)[OF dk below res] ps .
qed

lemma load_loop_step:
  assumes "load_loop h known ((n, data) # rest) (incl, cs) = Inr st'"
  shows "\<exists>incl' cs'. load_loop h known rest (incl', cs') = Inr st' \<and>
           (cs' = cs \<or> (\<exists>cls. cs' = setitem n cls cs))"
proof (cases "h n")
  case True
  with assms show ?thesis by auto
next
  case h: False
  show ?thesis
  proof (cases "n = ''__includes''")
    case True
    with h assms show ?thesis
      by (cases data) (auto split: option.splits)
  next
    case i: False
    show ?thesis
    proof (cases "startswith n ''__''")
      case True
      with h i assms show ?thesis by auto
    next
      case u: False
      show ?thesis
      proof (cases "get_class data")
        case (Inl e)
        with h i u assms show ?thesis by simp
      next
        case (Inr cls)
        show ?thesis
        proof (cases "check_types cls known")
          case (Inl e)
          with h i u Inr assms show ?thesis by (simp split: if_splits)
        next
          case r: (Inr x)
          with h i u Inr assms have "load_loop h known rest (incl, setitem n cls cs) = Inr st'"
            by (simp split: if_splits)
          then show ?thesis by blast
        qed
      qed
    qed
  qed
qed

lemma load_loop_distinct:
  "load_loop h known m st = Inr st' \<Longrightarrow> distinct (map fst (snd st)) \<Longrightarrow> distinct (map fst (snd st'))"
proof (induction m arbitrary: st)
  case Nil
  then show ?case by simp
next
  case (Cons p rest)
  obtain n data where p: "p = (n, data)" by (cases p)
  obtain incl cs where st: "st = (incl, cs)" by (cases st)
  from Cons.prems(1) obtain incl' cs' where
    r: "load_loop h known rest (incl', cs') = Inr st'"
    and c: "cs' = cs \<or> (\<exists>cls. cs' = setitem n cls cs)"
    unfolding p st by (blast dest: load_loop_step)
  from c Cons.prems(2) have "distinct (map fst cs')"
    unfolding st by (auto simp: keys_setitem)
  with Cons.IH[OF r] show ?case by simp
qed

lemma load_Inr:
  assumes "load hasattr_defs m = Inr s"
  obtains cs where "distinct (map fst cs)" and "toposort_classes_by_group cs = Inr (classes s)"
proof -
  from assms obtain incl cs where l: "load_loop hasattr_defs (known_of m) m ({}, []) = Inr (incl, cs)"
    and t: "toposort_classes_by_group cs = Inr (classes s)"
    by (auto simp: load_def split: sum.splits prod.splits)
  from load_loop_distinct[OF l] have "distinct (map fst cs)" by simp
  then show ?thesis using t by (rule that)
qed

lemma bases_below_cong: "set cs = set cs' \<Longrightarrow> bases_below cs = bases_below cs'"
  by (simp add: bases_below_def)

text \<open>
  C2, as amended. For every schema that \<open>load\<close> returns and in which no class has a base
  of a group that is lexicographically greater than its own group, the classes come
  in ascending order of their group tags, so that the classes of one group are
  consecutive and the groups ascend strictly, and within a group every class comes
  after every other class that it lists in its bases.
\<close>

theorem load_groups_ascending_bases_first:
  assumes "load hasattr_defs m = Inr s" and "bases_below (classes s)"
  shows "sorted (map (group \<circ> snd) (classes s)) \<and>
     (\<forall>i j. i < length (classes s) \<and> j < length (classes s) \<and> i \<noteq> j \<and>
        group (snd (classes s ! i)) = group (snd (classes s ! j)) \<and>
        fst (classes s ! i) \<in> set (bases (snd (classes s ! j))) \<longrightarrow> i < j)"
proof -
  from assms(1) obtain cs where dk: "distinct (map fst cs)"
    and res: "toposort_classes_by_group cs = Inr (classes s)"
    by (rule load_Inr)
  let ?out = "classes s"
  have eq: "set ?out = set cs" and dko: "distinct (map fst ?out)"
    using dk res by (rule sorter_Inr_set)+
  from assms(2) have below: "bases_below cs"
    using bases_below_cong[OF eq] by simp
  have "sorted (map (group \<circ> snd) ?out)"
    using dk below res by (rule sorter_groups_sorted)
  moreover have "i < j"
    if ij: "i < length ?out" "j < length ?out" "i \<noteq> j"
      and gr: "group (snd (?out ! i)) = group (snd (?out ! j))"
      and bs: "fst (?out ! i) \<in> set (bases (snd (?out ! j)))" for i j
  proof -
    let ?keys = "map fst ?out"
    have li: "i < length ?keys" and lj: "j < length ?keys"
      using ij(1,2) by simp_all
    have ni: "?keys ! i = fst (?out ! i)" and nj: "?keys ! j = fst (?out ! j)"
      using ij(1,2) by simp_all
    have "?out ! i \<in> set ?out" using ij(1) by (rule nth_mem)
    then have ki: "(fst (?out ! i), snd (?out ! i)) \<in> set cs"
      unfolding eq by simp
    have "?out ! j \<in> set ?out" using ij(2) by (rule nth_mem)
    then have kj: "(fst (?out ! j), snd (?out ! j)) \<in> set cs"
      unfolding eq by simp
    have "?keys ! i \<noteq> ?keys ! j"
      using nth_eq_iff_index_eq[OF dko li lj] ij(3) by simp
    then have ne: "fst (?out ! i) \<noteq> fst (?out ! j)"
      unfolding ni nj .
    from sorter_base_before[OF dk below res kj bs ne ki gr]
    have "before ?keys (fst (?out ! i)) (fst (?out ! j))" .
    then have "before ?keys (?keys ! i) (?keys ! j)"
      unfolding ni nj .
    with dko li lj show ?thesis
      by (rule before_index)
  qed
  ultimately show ?thesis by blast
qed

theorem load_groups_ascending_bases_first_witness:
  "load (\<lambda>n. False) root_child_module = Inr root_child_schema \<and>
   bases_below (classes root_child_schema) \<and>
   sorted (map (group \<circ> snd) (classes root_child_schema)) \<and>
   map fst (classes root_child_schema) = [''Root'', ''Child'']"
proof -
  have l: "load (\<lambda>n. False) root_child_module = Inr root_child_schema"
    by code_simp
  have b: "bases_below (classes root_child_schema)"
    by (simp add: bases_below_def root_child_schema_def Class_of_def)
  from load_groups_ascending_bases_first[OF l b] l b show ?thesis
    by (simp add: root_child_schema_def)
qed

text \<open>C2 as stated: in every schema that \<open>load\<close> returns the groups ascend. With a root,
  a class \<open>A\<close> of group \<open>b\<close> and a class \<open>B\<close> of group \<open>a\<close> whose base is \<open>A\<close>, the classes come
  in the order \<open>Root\<close>, \<open>A\<close>, \<open>B\<close>: group \<open>b\<close> before group \<open>a\<close>.\<close>

theorem load_cross_group_counterexample:
  "load (\<lambda>n. False) cross_group_module = Inr cross_group_schema \<and>
   map (group \<circ> snd) (classes cross_group_schema) = ['''', ''b'', ''a''] \<and>
   \<not> sorted (map (group \<circ> snd) (classes cross_group_schema))"
proof -
  have "load (\<lambda>n. False) cross_group_module = Inr cross_group_schema"
    by code_simp
  then show ?thesis
    by (simp add: cross_group_schema_def Class_of_def)
qed

end
